theory Spec2Isabelle
  imports Main
begin

section \<open>Python strings and the built-in operations the program uses\<close>

text \<open>
  A Python \<open>str\<close> is a sequence of Unicode code points. Code points are natural
  numbers here, so that the em dash (U+2014) and the en dash (U+2013) the program looks
  for are single characters, as they are in Python. \<open>str\<close> turns an ASCII literal into
  such a sequence.
\<close>

type_synonym codepoint = nat
type_synonym pystr = "codepoint list"

definition str :: "string \<Rightarrow> pystr" where
  "str s = map of_char s"

text \<open>\<open>str.isspace\<close> for one code point: the table of CPython's
  \<open>_PyUnicode_IsWhitespace\<close>, which \<open>strip()\<close> and \<open>split()\<close> use.\<close>

definition isspace :: "codepoint \<Rightarrow> bool" where
  "isspace c \<longleftrightarrow>
     (9 \<le> c \<and> c \<le> 13) \<or> (28 \<le> c \<and> c \<le> 32) \<or> c = 133 \<or> c = 160 \<or> c = 5760 \<or>
     (8192 \<le> c \<and> c \<le> 8202) \<or> c = 8232 \<or> c = 8233 \<or> c = 8239 \<or> c = 8287 \<or>
     c = 12288"

text \<open>\<open>s.strip()\<close>: whitespace removed at both ends.\<close>

definition strip :: "pystr \<Rightarrow> pystr" where
  "strip s = rev (dropWhile isspace (rev (dropWhile isspace s)))"

text \<open>\<open>s.split()\<close>: skip whitespace, read one token up to the next whitespace,
  repeat. No token is empty.\<close>

function split_ws :: "pystr \<Rightarrow> pystr list" where
  "split_ws s =
     (let s' = dropWhile isspace s in
      if s' = [] then []
      else takeWhile (\<lambda>c. \<not> isspace c) s' # split_ws (dropWhile (\<lambda>c. \<not> isspace c) s'))"
  by pat_completeness auto
termination
proof (relation "measure length")
  show "wf (measure length)" by simp
next
  fix s s' :: pystr
  assume s': "s' = dropWhile isspace s" and ne: "s' \<noteq> []"
  have "length (dropWhile (\<lambda>c. \<not> isspace c) s') < length s'"
  proof (cases s')
    case Nil
    with ne show ?thesis by simp
  next
    case (Cons a as)
    with s' have "\<not> isspace a"
      by (metis hd_dropWhile list.sel(1) ne)
    with Cons have "length (dropWhile (\<lambda>c. \<not> isspace c) s') \<le> length as"
      by (simp add: length_dropWhile_le)
    with Cons show ?thesis by simp
  qed
  moreover have "length s' \<le> length s"
    using s' by (simp add: length_dropWhile_le)
  ultimately show "(dropWhile (\<lambda>c. \<not> isspace c) s', s) \<in> measure length"
    by simp
qed

declare split_ws.simps [simp del]

text \<open>\<open>" ".join(words)\<close>.\<close>

fun join_sp :: "pystr list \<Rightarrow> pystr" where
  "join_sp [] = []"
| "join_sp [w] = w"
| "join_sp (w # v # ws) = w @ 32 # join_sp (v # ws)"

text \<open>\<open>s.split(sep)\<close> for a one-character separator: every occurrence splits, empty
  pieces are kept, and the result is never the empty list.\<close>

fun split_on :: "codepoint \<Rightarrow> pystr \<Rightarrow> pystr list" where
  "split_on c [] = [[]]"
| "split_on c (x # xs) =
     (case split_on c xs of
        [] \<Rightarrow> [[]]
      | p # ps \<Rightarrow> if x = c then [] # p # ps else (x # p) # ps)"

text \<open>\<open>s.rsplit(sep, 1)\<close> for a one-character separator: one split, at the last
  occurrence; the whole string alone when the separator does not occur.\<close>

definition rsplit1 :: "codepoint \<Rightarrow> pystr \<Rightarrow> pystr list" where
  "rsplit1 c s =
     (if c \<in> set s
      then [rev (tl (dropWhile (\<lambda>x. x \<noteq> c) (rev s))), rev (takeWhile (\<lambda>x. x \<noteq> c) (rev s))]
      else [s])"

text \<open>\<open>s.split(sep, 1)\<close> for a one-character separator: one split, at the first
  occurrence.\<close>

definition split1 :: "codepoint \<Rightarrow> pystr \<Rightarrow> pystr list" where
  "split1 c s =
     (if c \<in> set s
      then [takeWhile (\<lambda>x. x \<noteq> c) s, tl (dropWhile (\<lambda>x. x \<noteq> c) s)]
      else [s])"

text \<open>\<open>s.replace(' ', '')\<close>.\<close>

definition remove_spaces :: "pystr \<Rightarrow> pystr" where
  "remove_spaces s = filter (\<lambda>c. c \<noteq> 32) s"

definition startswith :: "pystr \<Rightarrow> pystr \<Rightarrow> bool" where
  "startswith s p \<longleftrightarrow> take (length p) s = p"

definition endswith :: "pystr \<Rightarrow> pystr \<Rightarrow> bool" where
  "endswith s p \<longleftrightarrow> length p \<le> length s \<and> drop (length s - length p) s = p"

text \<open>\<open>sub in s\<close> for strings: \<open>sub\<close> occurs in \<open>s\<close> as a contiguous piece.\<close>

fun contains :: "pystr \<Rightarrow> pystr \<Rightarrow> bool" where
  "contains sub [] \<longleftrightarrow> sub = []"
| "contains sub (x # xs) \<longleftrightarrow> startswith (x # xs) sub \<or> contains sub xs"

text \<open>Truth value of an optional string: \<open>None\<close> and \<open>""\<close> are false.\<close>

fun truthy :: "pystr option \<Rightarrow> bool" where
  "truthy None \<longleftrightarrow> False"
| "truthy (Some s) \<longleftrightarrow> s \<noteq> []"

text \<open>\<open>os.path.join\<close> (posixpath) for two components, and for more by folding.\<close>

definition join2 :: "pystr \<Rightarrow> pystr \<Rightarrow> pystr" where
  "join2 path b =
     (if startswith b (str ''/'') then b
      else if path = [] \<or> endswith path (str ''/'') then path @ b
      else path @ str ''/'' @ b)"

definition path_join :: "pystr \<Rightarrow> pystr list \<Rightarrow> pystr" where
  "path_join a ps = foldl join2 a ps"

text \<open>
  \<open>str.lower\<close> is Unicode lowercasing (with full case mappings and the final-sigma
  rule); the program's functions take it as the parameter \<open>lower\<close>. On ASCII text it
  is \<open>ascii_lower\<close>, which the concrete examples use.
\<close>

definition ascii_lower :: "pystr \<Rightarrow> pystr" where
  "ascii_lower s = map (\<lambda>c. if 65 \<le> c \<and> c \<le> 90 then c + 32 else c) s"

section \<open>The operating system as the program sees it\<close>

datatype exn =
    CalledProcessError
  | FileNotFoundError
  | PermissionError
  | NotADirectoryError
  | IsADirectoryError
  | UnicodeDecodeError
  | IndexError

text \<open>
  The calls into the operating system, as functions of the (unchanging) system state:
  \<^item> \<open>environ\<close>: \<open>os.environ.get(name)\<close>;
  \<^item> \<open>expanduser\<close>: \<open>os.path.expanduser\<close>;
  \<^item> \<open>path_exists\<close>: \<open>os.path.exists\<close>;
  \<^item> \<open>listdir\<close>: \<open>os.listdir\<close>, which raises on a path that cannot be listed;
  \<^item> \<open>walk\<close>: the triples \<open>(root, dirs, files)\<close> that \<open>os.walk\<close> yields, in its order
    (it skips what it cannot list and yields nothing for a missing path);
  \<^item> \<open>open_lines\<close>: the lines of a text file opened with \<open>errors='ignore'\<close>, each with
    its line end, or the exception that opening or reading raises (a file whose reading
    fails only after the line at which the reading loop returns counts as its lines up
    to there);
  \<^item> \<open>check_output\<close>: \<open>subprocess.check_output(argv).decode()\<close>: the decoded standard
    output, or the exception raised (\<open>CalledProcessError\<close> on a non-zero exit status,
    \<open>FileNotFoundError\<close> when the program is missing, \<open>UnicodeDecodeError\<close> when
    the output is not valid UTF-8).
\<close>

record os_env =
  environ :: "pystr \<Rightarrow> pystr option"
  expanduser :: "pystr \<Rightarrow> pystr"
  path_exists :: "pystr \<Rightarrow> bool"
  listdir :: "pystr \<Rightarrow> exn + pystr list"
  walk :: "pystr \<Rightarrow> (pystr \<times> pystr list \<times> pystr list) list"
  open_lines :: "pystr \<Rightarrow> exn + pystr list"
  check_output :: "pystr list \<Rightarrow> exn + pystr"

section \<open>The program\<close>

definition DESKTOP_DIRS :: "os_env \<Rightarrow> pystr list" where
  "DESKTOP_DIRS env =
     [str ''/usr/share/applications'',
      expanduser env (str ''~/.local/share/applications''),
      str ''/var/lib/flatpak/exports/share/applications'',
      str ''/var/lib/snapd/desktop/applications'']"

definition ICON_EXTS :: "pystr list" where
  "ICON_EXTS = [str ''png'', str ''svg'', str ''xpm'', str ''jpg'', str ''jpeg'', str ''bmp'',
     str ''gif'']"

subsection \<open>Icon theme handling\<close>

text \<open>Only \<open>subprocess.CalledProcessError\<close> is caught; any other exception leaves the
  function.\<close>

definition theme_query :: "pystr list" where
  "theme_query =
     [str ''xfconf-query'', str ''-c'', str ''xsettings'', str ''-p'', str ''/Net/IconThemeName'']"

definition get_current_icon_theme :: "os_env \<Rightarrow> exn + pystr" where
  "get_current_icon_theme env =
     (case check_output env theme_query of
        Inr out \<Rightarrow> Inr (strip out)
      | Inl CalledProcessError \<Rightarrow> Inr (str ''hicolor'')
      | Inl e \<Rightarrow> Inl e)"

text \<open>The two loops of \<open>get_icon_search_paths\<close> over the data roots: each appends
  \<open>base/icons/name\<close> to \<open>paths\<close> when it exists.\<close>

fun append_existing :: "os_env \<Rightarrow> pystr \<Rightarrow> pystr list \<Rightarrow> pystr list \<Rightarrow> pystr list" where
  "append_existing env name paths [] = paths"
| "append_existing env name paths (base # bases) =
     (let d = path_join base [str ''icons'', name] in
      append_existing env name (if path_exists env d then paths @ [d] else paths) bases)"

definition xdg_data_dirs :: "os_env \<Rightarrow> pystr list" where
  "xdg_data_dirs env =
     split_on 58 (case environ env (str ''XDG_DATA_DIRS'') of
                    Some v \<Rightarrow> v | None \<Rightarrow> str ''/usr/local/share:/usr/share'')"

definition xdg_data_home :: "os_env \<Rightarrow> pystr" where
  "xdg_data_home env =
     (case environ env (str ''XDG_DATA_HOME'') of
        Some v \<Rightarrow> v | None \<Rightarrow> expanduser env (str ''~/.local/share''))"

definition get_icon_search_paths :: "os_env \<Rightarrow> pystr \<Rightarrow> pystr list" where
  "get_icon_search_paths env theme =
     (let xdg_data_dirs = xdg_data_dirs env;
          xdg_data_home = xdg_data_home env;
          paths1 = append_existing env theme [] (xdg_data_home # xdg_data_dirs);
          paths2 = append_existing env (str ''hicolor'') paths1 (xdg_data_home # xdg_data_dirs)
      in if path_exists env (str ''/usr/share/pixmaps'')
         then paths2 @ [str ''/usr/share/pixmaps'']
         else paths2)"

text \<open>\<open>search_icon\<close>: three nested loops, over the search paths, over the directories
  \<open>os.walk\<close> yields below each, and over the extensions.\<close>

fun search_exts :: "pystr \<Rightarrow> pystr \<Rightarrow> pystr list \<Rightarrow> pystr list \<Rightarrow> pystr option" where
  "search_exts icon_name root files [] = None"
| "search_exts icon_name root files (ext # exts) =
     (let candidate = icon_name @ str ''.'' @ ext in
      if candidate \<in> set files then Some (path_join root [candidate])
      else search_exts icon_name root files exts)"

fun search_walk :: "pystr \<Rightarrow> (pystr \<times> pystr list \<times> pystr list) list \<Rightarrow> pystr option" where
  "search_walk icon_name [] = None"
| "search_walk icon_name ((root, dirs, files) # rest) =
     (case search_exts icon_name root files ICON_EXTS of
        Some p \<Rightarrow> Some p
      | None \<Rightarrow> search_walk icon_name rest)"

fun search_icon :: "os_env \<Rightarrow> pystr \<Rightarrow> pystr list \<Rightarrow> pystr option" where
  "search_icon env icon_name [] = None"
| "search_icon env icon_name (base # paths) =
     (case search_walk icon_name (walk env base) of
        Some p \<Rightarrow> Some p
      | None \<Rightarrow> search_icon env icon_name paths)"

subsection \<open>Window and desktop file handling\<close>

text \<open>\<open>extract_last_word_after_dash\<close>: the loop over the separators em dash, en dash
  and hyphen returns at the first one that occurs in the collapsed name.\<close>

fun after_dash :: "pystr \<Rightarrow> codepoint list \<Rightarrow> pystr" where
  "after_dash name [] = name"
| "after_dash name (sep # seps) =
     (if sep \<in> set name then
        (let segment = strip (last (rsplit1 sep name));
             words = split_ws segment
         in if words \<noteq> [] then last words else segment)
      else after_dash name seps)"

definition extract_last_word_after_dash :: "pystr option \<Rightarrow> pystr" where
  "extract_last_word_after_dash win_name =
     (let original = strip (if truthy win_name then the win_name else []);
          name = join_sp (split_ws original)
      in after_dash name [8212, 8211, 45])"

text \<open>\<open>find_desktop_file\<close>: the inner loop over one directory listing, and the outer
  loop over the directories. \<open>os.listdir\<close> is not guarded, so its exception leaves
  the function.\<close>

fun find_in_listing :: "(pystr \<Rightarrow> pystr) \<Rightarrow> pystr \<Rightarrow> pystr \<Rightarrow> pystr list \<Rightarrow> pystr option" where
  "find_in_listing lower target directory [] = None"
| "find_in_listing lower target directory (file # files) =
     (if \<not> endswith file (str ''.desktop'') then find_in_listing lower target directory files
      else if contains target (remove_spaces (lower file))
        then Some (path_join directory [file])
      else find_in_listing lower target directory files)"

fun find_in_dirs ::
  "(pystr \<Rightarrow> pystr) \<Rightarrow> os_env \<Rightarrow> pystr \<Rightarrow> pystr list \<Rightarrow> exn + pystr option" where
  "find_in_dirs lower env target [] = Inr None"
| "find_in_dirs lower env target (directory # dirs) =
     (if \<not> path_exists env directory then find_in_dirs lower env target dirs
      else case listdir env directory of
             Inl e \<Rightarrow> Inl e
           | Inr files \<Rightarrow>
               (case find_in_listing lower target directory files of
                  Some p \<Rightarrow> Inr (Some p)
                | None \<Rightarrow> find_in_dirs lower env target dirs))"

definition find_desktop_file ::
  "(pystr \<Rightarrow> pystr) \<Rightarrow> os_env \<Rightarrow> pystr \<Rightarrow> exn + pystr option" where
  "find_desktop_file lower env name_guess =
     find_in_dirs lower env (remove_spaces (lower name_guess)) (DESKTOP_DIRS env)"

text \<open>\<open>read_icon_from_desktop\<close>: everything after \<open>open\<close> runs under
  \<open>except Exception\<close>, so an exception (also the \<open>IndexError\<close> of \<open>[1]\<close>) ends in
  \<open>return None\<close>.\<close>

definition index1 :: "pystr list \<Rightarrow> exn + pystr" where
  "index1 parts = (case parts of _ # v # _ \<Rightarrow> Inr v | _ \<Rightarrow> Inl IndexError)"

fun scan_lines :: "pystr list \<Rightarrow> pystr option" where
  "scan_lines [] = None"
| "scan_lines (line # lines) =
     (if startswith line (str ''Icon='') then
        (case index1 (split1 61 (strip line)) of
           Inr icon_name \<Rightarrow> Some icon_name
         | Inl e \<Rightarrow> None)
      else scan_lines lines)"

definition read_icon_from_desktop :: "os_env \<Rightarrow> pystr option \<Rightarrow> pystr option" where
  "read_icon_from_desktop env desktop_file =
     (if \<not> truthy desktop_file then None
      else case open_lines env (the desktop_file) of
             Inl e \<Rightarrow> None
           | Inr lines \<Rightarrow> scan_lines lines)"

subsection \<open>Icon resolution\<close>

text \<open>The loop that builds \<open>extra\<close> from the base candidates.\<close>

fun derive_extra :: "(pystr \<Rightarrow> pystr) \<Rightarrow> pystr list \<Rightarrow> pystr list \<Rightarrow> pystr list" where
  "derive_extra lower extra [] = extra"
| "derive_extra lower extra (s # ss) =
     (if s = [] then derive_extra lower extra ss
      else
        (let s2 = lower s;
             s3 = remove_spaces s2;
             extra' = (if 46 \<in> set s2 then extra @ [last (split_on 46 s2)] else extra)
         in derive_extra lower (extra' @ [s2, s3]) ss))"

text \<open>The deduplicating loop: the state is the set \<open>seen\<close> and the list
  \<open>all_cands\<close>.\<close>

fun dedup :: "pystr set \<times> pystr list \<Rightarrow> pystr list \<Rightarrow> pystr set \<times> pystr list" where
  "dedup (seen, all_cands) [] = (seen, all_cands)"
| "dedup (seen, all_cands) (c # cs) =
     (if c \<noteq> [] \<and> c \<notin> seen then dedup (insert c seen, all_cands @ [c]) cs
      else dedup (seen, all_cands) cs)"

text \<open>The loop over the words of \<open>last_word\<close>.\<close>

fun add_words ::
  "(pystr \<Rightarrow> pystr) \<Rightarrow> pystr set \<times> pystr list \<Rightarrow> pystr list \<Rightarrow> pystr set \<times> pystr list" where
  "add_words lower (seen, all_cands) [] = (seen, all_cands)"
| "add_words lower (seen, all_cands) (w # ws) =
     (let w_lower = lower w in
      if w_lower \<notin> seen then add_words lower (insert w_lower seen, all_cands @ [w_lower]) ws
      else add_words lower (seen, all_cands) ws)"

definition base_candidates :: "pystr option \<Rightarrow> pystr option \<Rightarrow> pystr option \<Rightarrow> pystr list" where
  "base_candidates icon_from_desktop exe_name last_word =
     (if truthy icon_from_desktop then [the icon_from_desktop] else []) @
     (if truthy exe_name then [the exe_name] else []) @
     (if truthy last_word then [the last_word] else [])"

definition build_icon_candidates ::
  "(pystr \<Rightarrow> pystr) \<Rightarrow> os_env \<Rightarrow> pystr option \<Rightarrow> pystr option \<Rightarrow> pystr option \<Rightarrow> pystr list" where
  "build_icon_candidates lower env desktop_file exe_name last_word =
     (let icon_from_desktop = read_icon_from_desktop env desktop_file;
          candidates = base_candidates icon_from_desktop exe_name last_word;
          extra = derive_extra lower [] candidates;
          st = dedup ({}, []) (candidates @ extra);
          st' = (if truthy last_word then add_words lower st (split_ws (the last_word))
                 else st)
      in snd st')"

fun try_candidates :: "os_env \<Rightarrow> pystr list \<Rightarrow> pystr list \<Rightarrow> pystr option" where
  "try_candidates env search_paths [] = None"
| "try_candidates env search_paths (cand # cands) =
     (let found = search_icon env cand search_paths in
      if truthy found then found else try_candidates env search_paths cands)"

definition get_icon_path ::
  "(pystr \<Rightarrow> pystr) \<Rightarrow> os_env \<Rightarrow> pystr option \<Rightarrow> pystr option \<Rightarrow> pystr option \<Rightarrow>
     pystr list \<Rightarrow> pystr option" where
  "get_icon_path lower env desktop_file exe_name last_word search_paths =
     try_candidates env search_paths
       (build_icon_candidates lower env desktop_file exe_name last_word)"

section \<open>Reading results\<close>

text \<open>\<open>comes_before x y xs\<close>: \<open>x\<close> occurs in \<open>xs\<close> and \<open>y\<close> occurs after the first
  \<open>x\<close>.\<close>

definition comes_before :: "'a \<Rightarrow> 'a \<Rightarrow> 'a list \<Rightarrow> bool" where
  "comes_before x y xs \<longleftrightarrow> y \<in> set (drop 1 (dropWhile (\<lambda>z. z \<noteq> x) xs))"

text \<open>\<open>last_token s\<close>: the last whitespace token of \<open>s\<close>; the empty string when
  \<open>s\<close> has no token.\<close>

definition last_token :: "pystr \<Rightarrow> pystr" where
  "last_token s = (case split_ws s of [] \<Rightarrow> [] | w # ws \<Rightarrow> last (w # ws))"

text \<open>\<open>is_match lower target file\<close>: the test \<open>find_desktop_file\<close> applies to one
  entry of a listing.\<close>

definition is_match :: "(pystr \<Rightarrow> pystr) \<Rightarrow> pystr \<Rightarrow> pystr \<Rightarrow> bool" where
  "is_match lower target file \<longleftrightarrow>
     endswith file (str ''.desktop'') \<and> contains target (remove_spaces (lower file))"

text \<open>\<open>unlisted env lower target directory\<close>: the scan passes over \<open>directory\<close>,
  because it does not exist or because its listing has no matching entry.\<close>

definition unlisted :: "os_env \<Rightarrow> (pystr \<Rightarrow> pystr) \<Rightarrow> pystr \<Rightarrow> pystr \<Rightarrow> bool" where
  "unlisted env lower target directory \<longleftrightarrow>
     \<not> path_exists env directory \<or>
     (case listdir env directory of
        Inl e \<Rightarrow> False
      | Inr files \<Rightarrow> \<forall>file \<in> set files. \<not> is_match lower target file)"

text \<open>\<open>has_match env icon_name base\<close>: some directory below \<open>base\<close> holds a file
  \<open>icon_name.ext\<close> for a recognised extension.\<close>

definition has_match :: "os_env \<Rightarrow> pystr \<Rightarrow> pystr \<Rightarrow> bool" where
  "has_match env icon_name base \<longleftrightarrow>
     (\<exists>t \<in> set (walk env base). \<exists>ext \<in> set ICON_EXTS.
        icon_name @ str ''.'' @ ext \<in> set (snd (snd t)))"

text \<open>The invariant of the two loops that fill \<open>all_cands\<close>: \<open>seen\<close> holds
  exactly the candidates collected so far, which are distinct and not empty.\<close>

definition cand_inv :: "pystr set \<times> pystr list \<Rightarrow> bool" where
  "cand_inv st \<longleftrightarrow> fst st = set (snd st) \<and> distinct (snd st) \<and> [] \<notin> set (snd st)"

section \<open>Example systems\<close>

text \<open>A system with home directory \<open>/home/u\<close>, no environment variables, no files and
  no \<open>xfconf-query\<close>. The other examples add to it.\<close>

definition env_base :: os_env where
  "env_base =
     \<lparr>environ = (\<lambda>name. None),
      expanduser = (\<lambda>p. case p of [] \<Rightarrow> [] | c # cs \<Rightarrow> if c = 126 then str ''/home/u'' @ cs else p),
      path_exists = (\<lambda>p. False),
      listdir = (\<lambda>p. Inl FileNotFoundError),
      walk = (\<lambda>p. []),
      open_lines = (\<lambda>p. Inl FileNotFoundError),
      check_output = (\<lambda>argv. Inl FileNotFoundError)\<rparr>"

text \<open>\<open>xfconf-query\<close> is installed and exits with a non-zero status.\<close>

definition env_query_fails :: os_env where
  "env_query_fails = env_base\<lparr>check_output := (\<lambda>argv. Inl CalledProcessError)\<rparr>"

text \<open>The theme Adwaita installed system-wide, hicolor for the user and system-wide, and
  the pixmaps directory.\<close>

definition env_icons :: os_env where
  "env_icons = env_base\<lparr>path_exists := (\<lambda>p. p \<in> set
     [str ''/usr/share/icons/Adwaita'', str ''/home/u/.local/share/icons/hicolor'',
      str ''/usr/share/icons/hicolor'', str ''/usr/share/pixmaps''])\<rparr>"

text \<open>Two search roots: the first holds \<open>firefox.svg\<close> only, the second
  \<open>firefox.png\<close>.\<close>

definition env_two_roots :: os_env where
  "env_two_roots = env_base\<lparr>walk := (\<lambda>p.
     if p = str ''/r1'' then
       [(str ''/r1'', [str ''apps''], []), (str ''/r1/apps'', [], [str ''firefox.svg''])]
     else if p = str ''/r2'' then
       [(str ''/r2'', [str ''apps''], []), (str ''/r2/apps'', [], [str ''firefox.png''])]
     else [])\<rparr>"

text \<open>Descriptors installed system-wide and, for Firefox, also for the user; icons in the
  system-wide hicolor theme.\<close>

definition env_apps :: os_env where
  "env_apps = env_base
     \<lparr>path_exists := (\<lambda>p. p \<in> set
        [str ''/usr/share/applications'', str ''/home/u/.local/share/applications'',
         str ''/usr/share/icons/hicolor'']),
      listdir := (\<lambda>p.
        if p = str ''/usr/share/applications'' then
          Inr [str ''mimeinfo.cache'', str ''firefox.desktop'', str ''org.example.App.desktop'']
        else if p = str ''/home/u/.local/share/applications'' then
          Inr [str ''firefox.desktop'']
        else Inl FileNotFoundError),
      walk := (\<lambda>p.
        if p = str ''/usr/share/icons/hicolor'' then
          [(str ''/usr/share/icons/hicolor'', [str ''apps''], [str ''index.theme'']),
           (str ''/usr/share/icons/hicolor/apps'', [], [str ''firefox.png'', str ''app.svg''])]
        else []),
      open_lines := (\<lambda>p.
        if p = str ''/usr/share/applications/org.example.App.desktop'' then
          Inr [str ''[Desktop Entry]'' @ [10], str ''Name=Example App'' @ [10],
               str ''Icon=org.example.App'' @ [10], str ''Exec=app'' @ [10]]
        else if p = str ''/usr/share/applications/firefox.desktop'' \<or>
                p = str ''/home/u/.local/share/applications/firefox.desktop'' then
          Inr [str ''[Desktop Entry]'' @ [10], str ''Icon=firefox'' @ [10]]
        else Inl FileNotFoundError)\<rparr>"

text \<open>The system-wide descriptor directory exists and holds no descriptor; the user's
  holds one.\<close>

definition env_sparse :: os_env where
  "env_sparse = env_base
     \<lparr>path_exists := (\<lambda>p. p \<in> set
        [str ''/usr/share/applications'', str ''/home/u/.local/share/applications'']),
      listdir := (\<lambda>p.
        if p = str ''/usr/share/applications'' then Inr [str ''mimeinfo.cache'']
        else if p = str ''/home/u/.local/share/applications'' then Inr [str ''htop.desktop'']
        else Inl FileNotFoundError)\<rparr>"

text \<open>The directory order the specification gives for the descriptor scan: the user's
  directory first, then the system-wide one, then the packaging systems' exports.\<close>

definition spec_descriptor_dirs :: "os_env \<Rightarrow> pystr list" where
  "spec_descriptor_dirs env =
     [expanduser env (str ''~/.local/share/applications''),
      str ''/usr/share/applications'',
      str ''/var/lib/flatpak/exports/share/applications'',
      str ''/var/lib/snapd/desktop/applications'']"

section \<open>Evaluating the definitions on concrete strings\<close>

lemma split_ws_Nil: "split_ws [] = []"
  by (simp add: split_ws.simps)

lemma split_ws_Cons:
  "split_ws (c # cs) =
     (if isspace c then split_ws cs
      else (c # takeWhile (\<lambda>c. \<not> isspace c) cs) # split_ws (dropWhile (\<lambda>c. \<not> isspace c) cs))"
proof (cases "isspace c")
  case True
  then show ?thesis
    by (subst split_ws.simps, subst (2) split_ws.simps) simp
next
  case False
  then show ?thesis
    by (subst split_ws.simps) simp
qed

lemmas eval_simps = str_def isspace_def strip_def split_ws_Nil split_ws_Cons rsplit1_def split1_def
  remove_spaces_def startswith_def endswith_def join2_def path_join_def ascii_lower_def

lemmas env_simps = env_base_def env_query_fails_def env_icons_def env_two_roots_def env_apps_def env_sparse_def





section \<open>The current icon theme\<close>

text \<open>
  Claim C6, as amended. The specification says that \<open>get_current_icon_theme\<close> falls
  back to \<open>"hicolor"\<close> whatever makes the theme query fail. The function catches
  \<open>subprocess.CalledProcessError\<close> only: it returns \<open>"hicolor"\<close> when the query
  exits with a non-zero status; any other exception of the query (the program is missing,
  the output cannot be decoded) leaves the function; and output that decodes is returned
  with its surrounding whitespace stripped, whatever it is.
\<close>

theorem get_current_icon_theme_cases:
  "(check_output env theme_query = Inl CalledProcessError \<longrightarrow>
      get_current_icon_theme env = Inr (str ''hicolor'')) \<and>
   (\<forall>e. check_output env theme_query = Inl e \<and> e \<noteq> CalledProcessError \<longrightarrow>
      get_current_icon_theme env = Inl e) \<and>
   (\<forall>out. check_output env theme_query = Inr out \<longrightarrow>
      get_current_icon_theme env = Inr (strip out))"
  by (auto simp: get_current_icon_theme_def split: sum.splits exn.splits)

theorem get_current_icon_theme_cases_witness:
  "check_output env_query_fails theme_query = Inl CalledProcessError \<and>
   get_current_icon_theme env_query_fails = Inr (str ''hicolor'')"
  using get_current_icon_theme_cases [of env_query_fails]
  by (simp add: env_simps)

text \<open>
  Claim C6 as stated fails: where \<open>xfconf-query\<close> is not installed, the query raises
  \<open>FileNotFoundError\<close>, which the function does not catch; the result is that
  exception, not \<open>"hicolor"\<close>.
\<close>

theorem get_current_icon_theme_missing_tool:
  "check_output env_base theme_query = Inl FileNotFoundError \<and>
   get_current_icon_theme env_base = Inl FileNotFoundError \<and>
   get_current_icon_theme env_base \<noteq> Inr (str ''hicolor'')"
  by (simp add: get_current_icon_theme_def env_simps)

section \<open>The icon search paths\<close>

lemma append_existing_eq:
  "append_existing env name paths bases =
     paths @ filter (path_exists env) (map (\<lambda>base. path_join base [str ''icons'', name]) bases)"
  by (induction bases arbitrary: paths) (simp_all add: Let_def)

text \<open>
  Claim C5. For every theme name, \<open>get_icon_search_paths\<close> returns the theme's
  directories \<open>root/icons/theme\<close> that exist, in the order of the data roots (the
  user's data root, then the system data roots in the order of \<open>XDG_DATA_DIRS\<close>),
  then the existing \<open>root/icons/hicolor\<close> directories in the same order, then
  \<open>/usr/share/pixmaps\<close> if it exists; every path returned exists.
\<close>

theorem get_icon_search_paths_order:
  "get_icon_search_paths env theme =
     filter (path_exists env)
       (map (\<lambda>base. path_join base [str ''icons'', theme]) (xdg_data_home env # xdg_data_dirs env)) @
     filter (path_exists env)
       (map (\<lambda>base. path_join base [str ''icons'', str ''hicolor''])
          (xdg_data_home env # xdg_data_dirs env)) @
     (if path_exists env (str ''/usr/share/pixmaps'') then [str ''/usr/share/pixmaps''] else []) \<and>
   (\<forall>p \<in> set (get_icon_search_paths env theme). path_exists env p)"
  by (auto simp: get_icon_search_paths_def append_existing_eq Let_def)

theorem get_icon_search_paths_order_witness:
  "get_icon_search_paths env_icons (str ''Adwaita'') =
     [str ''/usr/share/icons/Adwaita'', str ''/home/u/.local/share/icons/hicolor'',
      str ''/usr/share/icons/hicolor'', str ''/usr/share/pixmaps''] \<and>
   list_all (path_exists env_icons) (get_icon_search_paths env_icons (str ''Adwaita''))"
proof -
  have "get_icon_search_paths env_icons (str ''Adwaita'') =
     [str ''/usr/share/icons/Adwaita'', str ''/home/u/.local/share/icons/hicolor'',
      str ''/usr/share/icons/hicolor'', str ''/usr/share/pixmaps'']"
    by (simp add: get_icon_search_paths_def xdg_data_home_def xdg_data_dirs_def env_simps
        eval_simps)
  moreover have "\<forall>p \<in> set (get_icon_search_paths env_icons (str ''Adwaita'')). path_exists env_icons p"
    using get_icon_search_paths_order [of env_icons "str ''Adwaita''"] by blast
  ultimately show ?thesis by (simp only: list_all_iff)
qed

section \<open>Searching an icon\<close>

lemma search_exts_None:
  "search_exts icon_name root files exts = None \<longleftrightarrow>
     (\<forall>ext \<in> set exts. icon_name @ str ''.'' @ ext \<notin> set files)"
  by (induction exts) (simp_all add: Let_def)

lemma search_exts_Some:
  "search_exts icon_name root files exts = Some p \<Longrightarrow>
     \<exists>ext \<in> set exts. icon_name @ str ''.'' @ ext \<in> set files \<and>
       p = path_join root [icon_name @ str ''.'' @ ext]"
  by (induction exts) (auto simp: Let_def split: if_splits)

lemma search_walk_None:
  "search_walk icon_name ts = None \<longleftrightarrow>
     (\<forall>t \<in> set ts. \<forall>ext \<in> set ICON_EXTS. icon_name @ str ''.'' @ ext \<notin> set (snd (snd t)))"
proof (induction icon_name ts rule: search_walk.induct)
  case (1 icon_name)
  then show ?case by simp
next
  case (2 icon_name root dirs files rest)
  show ?case
  proof (cases "search_exts icon_name root files ICON_EXTS")
    case None
    with 2 search_exts_None [of icon_name root files ICON_EXTS] show ?thesis by simp
  next
    case (Some q)
    with search_exts_None [of icon_name root files ICON_EXTS] show ?thesis by auto
  qed
qed

lemma search_walk_Some:
  "search_walk icon_name ts = Some p \<Longrightarrow>
     \<exists>t \<in> set ts. \<exists>ext \<in> set ICON_EXTS. icon_name @ str ''.'' @ ext \<in> set (snd (snd t)) \<and>
       p = path_join (fst t) [icon_name @ str ''.'' @ ext]"
proof (induction icon_name ts rule: search_walk.induct)
  case (1 icon_name)
  then show ?case by simp
next
  case (2 icon_name root dirs files rest)
  show ?case
  proof (cases "search_exts icon_name root files ICON_EXTS")
    case None
    with 2 show ?thesis by auto
  next
    case (Some q)
    with 2 have "q = p" by simp
    with Some search_exts_Some [of icon_name root files ICON_EXTS p] show ?thesis by auto
  qed
qed

lemma search_walk_has_match:
  "search_walk icon_name (walk env base) = None \<longleftrightarrow> \<not> has_match env icon_name base"
  by (simp add: search_walk_None has_match_def)

lemma search_icon_skip:
  "\<forall>p \<in> set pre. \<not> has_match env icon_name p \<Longrightarrow>
     search_icon env icon_name (pre @ paths) = search_icon env icon_name paths"
proof (induction pre)
  case Nil
  then show ?case by simp
next
  case (Cons a pre)
  then have "search_walk icon_name (walk env a) = None"
    by (simp add: search_walk_has_match)
  with Cons show ?case by simp
qed

text \<open>
  Claim C3. The order of the search roots decides before the order of the extensions:
  when no root before \<open>base\<close> holds the icon under any extension and \<open>base\<close>
  holds it under some extension, \<open>search_icon\<close> returns a file found below
  \<open>base\<close>, whatever the later roots \<open>rest\<close> hold, also under an extension of
  higher priority: the result is that of searching \<open>base\<close> alone.
\<close>

theorem search_icon_root_priority:
  assumes "\<forall>p \<in> set pre. \<not> has_match env icon_name p"
      and "has_match env icon_name base"
  shows "(\<exists>t \<in> set (walk env base). \<exists>ext \<in> set ICON_EXTS.
            icon_name @ str ''.'' @ ext \<in> set (snd (snd t)) \<and>
            search_icon env icon_name (pre @ base # rest) =
              Some (path_join (fst t) [icon_name @ str ''.'' @ ext])) \<and>
         search_icon env icon_name (pre @ base # rest) = search_icon env icon_name [base]"
proof -
  from assms(2) obtain p where p: "search_walk icon_name (walk env base) = Some p"
    using search_walk_has_match [of icon_name env base] by auto
  then have r: "search_icon env icon_name (pre @ base # rest) = Some p"
    using assms(1) by (simp add: search_icon_skip)
  from p have "search_icon env icon_name [base] = Some p"
    by simp
  with r search_walk_Some [OF p] show ?thesis by auto
qed

theorem search_icon_root_priority_witness:
  "has_match env_two_roots (str ''firefox'') (str ''/r1'') \<and>
   search_icon env_two_roots (str ''firefox'') [str ''/r2''] = Some (str ''/r2/apps/firefox.png'') \<and>
   search_icon env_two_roots (str ''firefox'') ([] @ str ''/r1'' # [str ''/r2'']) =
     Some (str ''/r1/apps/firefox.svg'')"
  using search_icon_root_priority [of "[]" env_two_roots "str ''firefox''" "str ''/r1''" "[str ''/r2'']"]
  by (simp add: has_match_def ICON_EXTS_def env_simps eval_simps)

section \<open>Reading the icon of a descriptor\<close>

lemma scan_lines_none:
  "\<forall>l \<in> set lines. \<not> startswith l (str ''Icon='') \<Longrightarrow> scan_lines lines = None"
  by (induction lines) simp_all

lemma scan_lines_skip:
  "\<forall>l \<in> set pre. \<not> startswith l (str ''Icon='') \<Longrightarrow> scan_lines (pre @ lines) = scan_lines lines"
  by (induction pre) simp_all

lemma not_isspace_Icon [simp]:
  "\<not> isspace 73" "\<not> isspace 61"
  by (simp_all add: isspace_def)

lemma strip_Icon:
  assumes "startswith line (str ''Icon='')"
  shows "strip line = str ''Icon='' @ rev (dropWhile isspace (rev (drop 5 line)))"
proof -
  have "length (str ''Icon='') = 5"
    by (simp add: str_def)
  with assms have "take 5 line = [73, 99, 111, 110, 61]"
    by (simp add: startswith_def) (simp add: str_def)
  then have line: "line = [73, 99, 111, 110, 61] @ drop 5 line"
    by (metis append_take_drop_id)
  define r where "r = drop 5 line"
  from line have l: "line = 73 # 99 # 111 # 110 # 61 # r" by (simp add: r_def)
  have "dropWhile isspace (rev r @ [61, 110, 111, 99, 73]) =
        dropWhile isspace (rev r) @ [61, 110, 111, 99, 73]"
    by (simp add: dropWhile_append)
  then show ?thesis
    unfolding r_def [symmetric] by (simp add: l strip_def str_def)
qed

lemma scan_lines_Icon:
  assumes "startswith line (str ''Icon='')"
  shows "scan_lines (line # lines) = Some (drop 5 (strip line))"
proof -
  have "strip line = 73 # 99 # 111 # 110 # 61 # rev (dropWhile isspace (rev (drop 5 line)))"
    using strip_Icon [OF assms] by (simp add: str_def)
  then show ?thesis
    using assms by (simp add: split1_def index1_def)
qed

text \<open>
  Claim C8. \<open>read_icon_from_desktop\<close> returns \<open>None\<close> when the descriptor is
  absent, when the file cannot be opened or read (the exception is caught, the function
  has no exceptional result) and when no line starts with \<open>Icon=\<close>. Otherwise it
  returns, for the first line that starts with \<open>Icon=\<close>, what the split of the
  stripped line at its first \<open>=\<close> yields: the rest of the stripped line after
  \<open>Icon=\<close>. That value is not trimmed again: it is the rest of the line with only the
  whitespace at the end of the line removed, so whitespace after \<open>=\<close> stays.
\<close>

theorem read_icon_from_desktop_cases:
  "(\<not> truthy desktop_file \<longrightarrow> read_icon_from_desktop env desktop_file = None) \<and>
   (\<forall>e. truthy desktop_file \<and> open_lines env (the desktop_file) = Inl e \<longrightarrow>
      read_icon_from_desktop env desktop_file = None) \<and>
   (\<forall>lines. truthy desktop_file \<and> open_lines env (the desktop_file) = Inr lines \<and>
      (\<forall>l \<in> set lines. \<not> startswith l (str ''Icon='')) \<longrightarrow>
      read_icon_from_desktop env desktop_file = None) \<and>
   (\<forall>pre line post. truthy desktop_file \<and>
      open_lines env (the desktop_file) = Inr (pre @ line # post) \<and>
      (\<forall>l \<in> set pre. \<not> startswith l (str ''Icon='')) \<and> startswith line (str ''Icon='') \<longrightarrow>
      read_icon_from_desktop env desktop_file = Some (drop 5 (strip line)) \<and>
      strip line = str ''Icon='' @ drop 5 (strip line) \<and>
      drop 5 (strip line) = rev (dropWhile isspace (rev (drop 5 line))))"
proof (intro conjI allI impI)
  show "read_icon_from_desktop env desktop_file = None" if "\<not> truthy desktop_file"
    using that by (simp add: read_icon_from_desktop_def)
next
  fix e
  assume "truthy desktop_file \<and> open_lines env (the desktop_file) = Inl e"
  then show "read_icon_from_desktop env desktop_file = None"
    by (simp add: read_icon_from_desktop_def)
next
  fix lines
  assume "truthy desktop_file \<and> open_lines env (the desktop_file) = Inr lines \<and>
      (\<forall>l \<in> set lines. \<not> startswith l (str ''Icon=''))"
  then show "read_icon_from_desktop env desktop_file = None"
    by (simp add: read_icon_from_desktop_def scan_lines_none)
next
  fix pre line post
  assume a: "truthy desktop_file \<and>
      open_lines env (the desktop_file) = Inr (pre @ line # post) \<and>
      (\<forall>l \<in> set pre. \<not> startswith l (str ''Icon='')) \<and> startswith line (str ''Icon='')"
  then show "read_icon_from_desktop env desktop_file = Some (drop 5 (strip line))"
    by (simp add: read_icon_from_desktop_def scan_lines_skip scan_lines_Icon del: scan_lines.simps)
  from a have s: "strip line = str ''Icon='' @ rev (dropWhile isspace (rev (drop 5 line)))"
    by (simp add: strip_Icon)
  then show "drop 5 (strip line) = rev (dropWhile isspace (rev (drop 5 line)))"
    by (simp add: str_def)
  with s show "strip line = str ''Icon='' @ drop 5 (strip line)"
    by simp
qed

theorem read_icon_from_desktop_cases_witness:
  "truthy (Some (str ''/usr/share/applications/org.example.App.desktop'')) \<and>
   open_lines env_apps (the (Some (str ''/usr/share/applications/org.example.App.desktop''))) =
     Inr ([str ''[Desktop Entry]'' @ [10], str ''Name=Example App'' @ [10]] @
          (str ''Icon=org.example.App'' @ [10]) # [str ''Exec=app'' @ [10]]) \<and>
   \<not> startswith (str ''[Desktop Entry]'' @ [10]) (str ''Icon='') \<and>
   \<not> startswith (str ''Name=Example App'' @ [10]) (str ''Icon='') \<and>
   startswith (str ''Icon=org.example.App'' @ [10]) (str ''Icon='') \<and>
   read_icon_from_desktop env_apps (Some (str ''/usr/share/applications/org.example.App.desktop'')) =
     Some (str ''org.example.App'')"
  using read_icon_from_desktop_cases
    [of "Some (str ''/usr/share/applications/org.example.App.desktop'')" env_apps]
  by (simp add: read_icon_from_desktop_def env_simps eval_simps index1_def)

section \<open>Locating a descriptor\<close>

lemma find_in_listing_none:
  "\<forall>g \<in> set files. \<not> is_match lower target g \<Longrightarrow>
     find_in_listing lower target directory files = None"
  by (induction files) (auto simp: is_match_def)

lemma find_in_listing_first:
  "\<forall>g \<in> set fs1. \<not> is_match lower target g \<Longrightarrow> is_match lower target f \<Longrightarrow>
     find_in_listing lower target directory (fs1 @ f # fs2) = Some (path_join directory [f])"
  by (induction fs1) (auto simp: is_match_def)

lemma find_in_dirs_skip:
  "\<forall>d \<in> set pre. unlisted env lower target d \<Longrightarrow>
     find_in_dirs lower env target (pre @ dirs) = find_in_dirs lower env target dirs"
proof (induction pre)
  case Nil
  then show ?case by simp
next
  case (Cons d pre)
  then have "unlisted env lower target d" by simp
  then have "find_in_dirs lower env target (d # pre @ dirs) =
             find_in_dirs lower env target (pre @ dirs)"
    by (auto simp: unlisted_def find_in_listing_none split: sum.splits)
  with Cons show ?case by simp
qed

lemma find_in_dirs_first:
  assumes "\<forall>d' \<in> set pre. unlisted env lower target d'"
      and "path_exists env d" and "listdir env d = Inr (fs1 @ f # fs2)"
      and "\<forall>g \<in> set fs1. \<not> is_match lower target g" and "is_match lower target f"
  shows "find_in_dirs lower env target (pre @ d # post) = Inr (Some (path_join d [f]))"
  using assms by (simp add: find_in_dirs_skip find_in_listing_first)

lemma find_in_dirs_none:
  "\<forall>d \<in> set dirs. unlisted env lower target d \<Longrightarrow> find_in_dirs lower env target dirs = Inr None"
  using find_in_dirs_skip [of dirs env lower target "[]"] by simp

text \<open>
  Claim C7, as amended. The specification has the user's directory scanned first. The
  program's list starts with the system-wide directory: the order is
  \<open>/usr/share/applications\<close>, the user's \<open>~/.local/share/applications\<close>, the
  Flatpak exports, the Snap directory. \<open>find_desktop_file\<close> scans them in that order;
  it returns \<open>None\<close> when every directory is missing or lists no matching entry, and
  otherwise the first matching entry of the first existing directory that lists one,
  where an entry matches when it ends in \<open>.desktop\<close> and its lowercased name without
  spaces contains the lowercased hint without spaces.
\<close>

theorem find_desktop_file_scan:
  "DESKTOP_DIRS env =
     [str ''/usr/share/applications'', expanduser env (str ''~/.local/share/applications''),
      str ''/var/lib/flatpak/exports/share/applications'',
      str ''/var/lib/snapd/desktop/applications''] \<and>
   ((\<forall>d \<in> set (DESKTOP_DIRS env). unlisted env lower (remove_spaces (lower hint)) d) \<longrightarrow>
      find_desktop_file lower env hint = Inr None) \<and>
   (\<forall>pre d post fs1 f fs2.
      DESKTOP_DIRS env = pre @ d # post \<and>
      (\<forall>d' \<in> set pre. unlisted env lower (remove_spaces (lower hint)) d') \<and>
      path_exists env d \<and> listdir env d = Inr (fs1 @ f # fs2) \<and>
      (\<forall>g \<in> set fs1. \<not> is_match lower (remove_spaces (lower hint)) g) \<and>
      is_match lower (remove_spaces (lower hint)) f \<longrightarrow>
      find_desktop_file lower env hint = Inr (Some (path_join d [f])))"
proof (intro conjI allI impI)
  show "DESKTOP_DIRS env =
     [str ''/usr/share/applications'', expanduser env (str ''~/.local/share/applications''),
      str ''/var/lib/flatpak/exports/share/applications'',
      str ''/var/lib/snapd/desktop/applications'']"
    by (simp add: DESKTOP_DIRS_def)
next
  assume "\<forall>d \<in> set (DESKTOP_DIRS env). unlisted env lower (remove_spaces (lower hint)) d"
  then show "find_desktop_file lower env hint = Inr None"
    unfolding find_desktop_file_def by (rule find_in_dirs_none)
next
  fix pre d post fs1 f fs2
  assume "DESKTOP_DIRS env = pre @ d # post \<and>
      (\<forall>d' \<in> set pre. unlisted env lower (remove_spaces (lower hint)) d') \<and>
      path_exists env d \<and> listdir env d = Inr (fs1 @ f # fs2) \<and>
      (\<forall>g \<in> set fs1. \<not> is_match lower (remove_spaces (lower hint)) g) \<and>
      is_match lower (remove_spaces (lower hint)) f"
  then show "find_desktop_file lower env hint = Inr (Some (path_join d [f]))"
    unfolding find_desktop_file_def by (simp add: find_in_dirs_first)
qed

lemma contains_Nil: "contains [] s"
  by (induction s) (simp_all add: startswith_def)

text \<open>
  Claim C10, as amended. When the lowercased hint without spaces is empty, every entry
  that ends in \<open>.desktop\<close> matches, and \<open>find_desktop_file\<close> returns the first
  such entry of the first existing directory whose listing has one; the existing
  directories before it, whose listings have none, are passed over.
\<close>

theorem find_desktop_file_empty_key:
  assumes "remove_spaces (lower hint) = []"
      and "DESKTOP_DIRS env = pre @ d # post"
      and "\<forall>d' \<in> set pre. \<not> path_exists env d' \<or>
             (\<exists>files. listdir env d' = Inr files \<and>
                (\<forall>g \<in> set files. \<not> endswith g (str ''.desktop'')))"
      and "path_exists env d" and "listdir env d = Inr (fs1 @ f # fs2)"
      and "\<forall>g \<in> set fs1. \<not> endswith g (str ''.desktop'')"
      and "endswith f (str ''.desktop'')"
  shows "find_desktop_file lower env hint = Inr (Some (path_join d [f]))"
proof -
  have m: "is_match lower [] g \<longleftrightarrow> endswith g (str ''.desktop'')" for g
    by (simp add: is_match_def contains_Nil)
  have "\<forall>d' \<in> set pre. unlisted env lower [] d'"
    using assms(3) by (auto simp: unlisted_def m)
  then have "find_in_dirs lower env [] (pre @ d # post) = Inr (Some (path_join d [f]))"
    using assms(4-7) by (intro find_in_dirs_first) (simp_all add: m)
  then show ?thesis
    by (simp add: find_desktop_file_def assms(1,2))
qed

theorem find_desktop_file_scan_witness:
  "DESKTOP_DIRS env_apps =
     [] @ str ''/usr/share/applications'' #
       [str ''/home/u/.local/share/applications'',
        str ''/var/lib/flatpak/exports/share/applications'',
        str ''/var/lib/snapd/desktop/applications''] \<and>
   path_exists env_apps (str ''/usr/share/applications'') \<and>
   listdir env_apps (str ''/usr/share/applications'') =
     Inr ([str ''mimeinfo.cache''] @ str ''firefox.desktop'' # [str ''org.example.App.desktop'']) \<and>
   \<not> is_match ascii_lower (remove_spaces (ascii_lower (str ''Firefox''))) (str ''mimeinfo.cache'') \<and>
   is_match ascii_lower (remove_spaces (ascii_lower (str ''Firefox''))) (str ''firefox.desktop'') \<and>
   find_desktop_file ascii_lower env_apps (str ''Firefox'') =
     Inr (Some (str ''/usr/share/applications/firefox.desktop''))"
proof -
  have hyps: "DESKTOP_DIRS env_apps =
     [] @ str ''/usr/share/applications'' #
       [str ''/home/u/.local/share/applications'',
        str ''/var/lib/flatpak/exports/share/applications'',
        str ''/var/lib/snapd/desktop/applications''] \<and>
   (\<forall>d' \<in> set []. unlisted env_apps ascii_lower (remove_spaces (ascii_lower (str ''Firefox''))) d') \<and>
   path_exists env_apps (str ''/usr/share/applications'') \<and>
   listdir env_apps (str ''/usr/share/applications'') =
     Inr ([str ''mimeinfo.cache''] @ str ''firefox.desktop'' # [str ''org.example.App.desktop'']) \<and>
   (\<forall>g \<in> set [str ''mimeinfo.cache''].
      \<not> is_match ascii_lower (remove_spaces (ascii_lower (str ''Firefox''))) g) \<and>
   is_match ascii_lower (remove_spaces (ascii_lower (str ''Firefox''))) (str ''firefox.desktop'')"
    by (simp add: DESKTOP_DIRS_def is_match_def env_simps eval_simps)
  have "find_desktop_file ascii_lower env_apps (str ''Firefox'') =
     Inr (Some (path_join (str ''/usr/share/applications'') [str ''firefox.desktop'']))"
    using find_desktop_file_scan [of env_apps ascii_lower "str ''Firefox''"] hyps by blast
  moreover have "path_join (str ''/usr/share/applications'') [str ''firefox.desktop''] =
     str ''/usr/share/applications/firefox.desktop''"
    by (simp add: eval_simps)
  ultimately show ?thesis using hyps by simp
qed

text \<open>
  Claim C7 as stated fails: with a Firefox descriptor in both the system-wide and the
  user's directory, the program returns the system-wide one; a scan in the order the
  specification gives returns the user's.
\<close>

theorem find_desktop_file_system_dir_first:
  "find_desktop_file ascii_lower env_apps (str ''Firefox'') =
     Inr (Some (str ''/usr/share/applications/firefox.desktop'')) \<and>
   find_in_dirs ascii_lower env_apps (remove_spaces (ascii_lower (str ''Firefox'')))
       (spec_descriptor_dirs env_apps) =
     Inr (Some (str ''/home/u/.local/share/applications/firefox.desktop''))"
  by (simp add: find_desktop_file_def DESKTOP_DIRS_def spec_descriptor_dirs_def env_simps eval_simps)

theorem find_desktop_file_empty_key_witness:
  "remove_spaces (ascii_lower (str ''  '')) = [] \<and>
   DESKTOP_DIRS env_sparse =
     [str ''/usr/share/applications''] @ str ''/home/u/.local/share/applications'' #
       [str ''/var/lib/flatpak/exports/share/applications'',
        str ''/var/lib/snapd/desktop/applications''] \<and>
   listdir env_sparse (str ''/usr/share/applications'') = Inr [str ''mimeinfo.cache''] \<and>
   \<not> endswith (str ''mimeinfo.cache'') (str ''.desktop'') \<and>
   path_exists env_sparse (str ''/home/u/.local/share/applications'') \<and>
   listdir env_sparse (str ''/home/u/.local/share/applications'') =
     Inr ([] @ str ''htop.desktop'' # []) \<and>
   endswith (str ''htop.desktop'') (str ''.desktop'') \<and>
   find_desktop_file ascii_lower env_sparse (str ''  '') =
     Inr (Some (str ''/home/u/.local/share/applications/htop.desktop''))"
proof -
  have h1: "remove_spaces (ascii_lower (str ''  '')) = []"
    by (simp add: eval_simps)
  have h2: "DESKTOP_DIRS env_sparse =
     [str ''/usr/share/applications''] @ str ''/home/u/.local/share/applications'' #
       [str ''/var/lib/flatpak/exports/share/applications'',
        str ''/var/lib/snapd/desktop/applications'']"
    by (simp add: DESKTOP_DIRS_def env_simps eval_simps)
  have h3: "listdir env_sparse (str ''/usr/share/applications'') = Inr [str ''mimeinfo.cache'']"
    by (simp add: env_simps eval_simps)
  have h4: "\<not> endswith (str ''mimeinfo.cache'') (str ''.desktop'')"
    by (simp add: eval_simps)
  have h5: "path_exists env_sparse (str ''/home/u/.local/share/applications'')"
    by (simp add: env_simps eval_simps)
  have h6: "listdir env_sparse (str ''/home/u/.local/share/applications'') =
     Inr ([] @ str ''htop.desktop'' # [])"
    by (simp add: env_simps eval_simps)
  have h7: "endswith (str ''htop.desktop'') (str ''.desktop'')"
    by (simp add: eval_simps)
  have h8: "\<forall>d' \<in> set [str ''/usr/share/applications'']. \<not> path_exists env_sparse d' \<or>
             (\<exists>files. listdir env_sparse d' = Inr files \<and>
                (\<forall>g \<in> set files. \<not> endswith g (str ''.desktop'')))"
    using h3 h4 by simp
  have "find_desktop_file ascii_lower env_sparse (str ''  '') =
     Inr (Some (path_join (str ''/home/u/.local/share/applications'') [str ''htop.desktop'']))"
    using find_desktop_file_empty_key
      [of ascii_lower "str ''  ''" env_sparse "[str ''/usr/share/applications'']"
          "str ''/home/u/.local/share/applications''" _ "[]" "str ''htop.desktop''" "[]"]
      h1 h2 h8 h5 h6 h7 by simp
  moreover have "path_join (str ''/home/u/.local/share/applications'') [str ''htop.desktop''] =
     str ''/home/u/.local/share/applications/htop.desktop''"
    by (simp add: eval_simps)
  ultimately show ?thesis using h1 h2 h3 h4 h5 h6 h7 by simp
qed

text \<open>
  Claim C10 as stated fails: here the first existing directory holds no descriptor, and
  for a hint of two spaces the program returns a descriptor of the second existing
  directory, not an entry of the first.
\<close>

theorem find_desktop_file_first_dir_without_descriptor:
  "remove_spaces (ascii_lower (str ''  '')) = [] \<and>
   filter (path_exists env_sparse) (DESKTOP_DIRS env_sparse) =
     [str ''/usr/share/applications'', str ''/home/u/.local/share/applications''] \<and>
   listdir env_sparse (str ''/usr/share/applications'') = Inr [str ''mimeinfo.cache''] \<and>
   find_desktop_file ascii_lower env_sparse (str ''  '') =
     Inr (Some (str ''/home/u/.local/share/applications/htop.desktop'')) \<and>
   find_desktop_file ascii_lower env_sparse (str ''  '') \<noteq>
     Inr (Some (path_join (str ''/usr/share/applications'') [str ''mimeinfo.cache'']))"
  by (simp add: find_desktop_file_def DESKTOP_DIRS_def env_simps eval_simps)


section \<open>The candidate list\<close>

lemma split_ws_unfold:
  "split_ws s =
     (if dropWhile isspace s = [] then []
      else takeWhile (\<lambda>c. \<not> isspace c) (dropWhile isspace s) #
           split_ws (dropWhile (\<lambda>c. \<not> isspace c) (dropWhile isspace s)))"
  by (subst split_ws.simps) (simp only: Let_def)

lemma split_ws_nonempty: "w \<in> set (split_ws s) \<Longrightarrow> w \<noteq> []"
proof (induction s arbitrary: w rule: split_ws.induct)
  case (1 s)
  define s' where "s' = dropWhile isspace s"
  show ?case
  proof (cases "s' = []")
    case True
    then have "split_ws s = []"
      by (subst split_ws_unfold) (simp add: s'_def)
    with 1(2) show ?thesis by simp
  next
    case False
    then have hd: "\<not> isspace (hd s')"
      unfolding s'_def by (rule hd_dropWhile)
    from False have "split_ws s = takeWhile (\<lambda>c. \<not> isspace c) s' #
        split_ws (dropWhile (\<lambda>c. \<not> isspace c) s')"
      by (subst split_ws_unfold) (simp only: s'_def [symmetric] if_False)
    with 1(2) have "w = takeWhile (\<lambda>c. \<not> isspace c) s' \<or>
        w \<in> set (split_ws (dropWhile (\<lambda>c. \<not> isspace c) s'))"
      by simp
    then show ?thesis
    proof
      assume "w = takeWhile (\<lambda>c. \<not> isspace c) s'"
      with False hd show ?thesis by (cases s') simp_all
    next
      assume "w \<in> set (split_ws (dropWhile (\<lambda>c. \<not> isspace c) s'))"
      with 1(1) [OF s'_def False] show ?thesis by simp
    qed
  qed
qed

lemma derive_extra_acc:
  "derive_extra lower extra ss = extra @ derive_extra lower [] ss"
proof (induction ss arbitrary: extra)
  case Nil
  then show ?case by simp
next
  case (Cons s ss)
  show ?case
  proof (cases "s = []")
    case True
    with Cons [of extra] show ?thesis by simp
  next
    case False
    define v where "v = (if 46 \<in> set (lower s) then [last (split_on 46 (lower s))] else []) @
      [lower s, remove_spaces (lower s)]"
    from False have "derive_extra lower extra (s # ss) = derive_extra lower (extra @ v) ss"
      by (simp add: Let_def v_def)
    also have "\<dots> = (extra @ v) @ derive_extra lower [] ss"
      by (rule Cons)
    finally have l: "derive_extra lower extra (s # ss) = extra @ v @ derive_extra lower [] ss"
      by simp
    from False have "derive_extra lower [] (s # ss) = derive_extra lower v ss"
      by (simp add: Let_def v_def)
    also have "\<dots> = v @ derive_extra lower [] ss"
      by (rule Cons)
    finally show ?thesis
      using l by simp
  qed
qed

lemma derive_extra_Cons:
  "derive_extra lower [] (s # ss) =
     (if s = [] then []
      else (if 46 \<in> set (lower s) then [last (split_on 46 (lower s))] else []) @
           [lower s, remove_spaces (lower s)]) @
     derive_extra lower [] ss"
proof (cases "s = []")
  case True
  then show ?thesis by simp
next
  case False
  then have "derive_extra lower [] (s # ss) =
     derive_extra lower ((if 46 \<in> set (lower s) then [last (split_on 46 (lower s))] else []) @
           [lower s, remove_spaces (lower s)]) ss"
    by (simp add: Let_def)
  with False show ?thesis
    by (simp only: derive_extra_acc [of lower "_ @ _" ss] if_False)
qed

lemma derive_extra_append:
  "derive_extra lower [] (ss @ ts) = derive_extra lower [] ss @ derive_extra lower [] ts"
proof (induction ss)
  case Nil
  then show ?case by simp
next
  case (Cons s ss)
  have "derive_extra lower [] ((s # ss) @ ts) = derive_extra lower [] (s # (ss @ ts))"
    by simp
  then show ?case
    by (simp only: derive_extra_Cons Cons append_assoc)
qed

lemma dedup_inv: "cand_inv st \<Longrightarrow> cand_inv (dedup st cs)"
proof (induction st cs rule: dedup.induct)
  case (1 seen all_cands)
  then show ?case by simp
next
  case (2 seen all_cands c cs)
  show ?case
  proof (cases "c \<noteq> [] \<and> c \<notin> seen")
    case True
    with 2(3) have "cand_inv (insert c seen, all_cands @ [c])"
      by (auto simp: cand_inv_def)
    with 2(1) True show ?thesis by simp
  next
    case False
    with 2(2,3) show ?thesis by auto
  qed
qed

lemma add_words_inv:
  "cand_inv st \<Longrightarrow> \<forall>w \<in> set ws. lower w \<noteq> [] \<Longrightarrow> cand_inv (add_words lower st ws)"
proof (induction lower st ws rule: add_words.induct)
  case (1 lower seen all_cands)
  then show ?case by simp
next
  case (2 lower seen all_cands w ws)
  show ?case
  proof (cases "lower w \<notin> seen")
    case True
    with 2(3,4) have "cand_inv (insert (lower w) seen, all_cands @ [lower w])"
      by (auto simp: cand_inv_def)
    with 2(1) [OF refl True] 2(4) True show ?thesis by (simp add: Let_def)
  next
    case False
    with 2(2) [OF refl] 2(3,4) show ?thesis by (simp add: Let_def)
  qed
qed

lemma cand_inv_init: "cand_inv ({}, [])"
  by (simp add: cand_inv_def)

text \<open>
  Claim C2. Whether the descriptor, the exec hint and the normalized hint are present or
  absent (\<open>None\<close> or empty), the list \<open>build_icon_candidates\<close> returns has no
  duplicates and no empty string. Lowercasing is assumed to keep a non-empty string
  non-empty, as \<open>str.lower\<close> does.
\<close>

theorem build_icon_candidates_distinct:
  assumes "\<forall>s. s \<noteq> [] \<longrightarrow> lower s \<noteq> []"
  shows "distinct (build_icon_candidates lower env desktop_file exe_name last_word) \<and>
         [] \<notin> set (build_icon_candidates lower env desktop_file exe_name last_word)"
proof -
  define st where "st = dedup ({}, [])
     (base_candidates (read_icon_from_desktop env desktop_file) exe_name last_word @
      derive_extra lower []
        (base_candidates (read_icon_from_desktop env desktop_file) exe_name last_word))"
  have st: "cand_inv st"
    unfolding st_def by (rule dedup_inv [OF cand_inv_init])
  have "\<forall>w \<in> set (split_ws (the last_word)). lower w \<noteq> []"
    using assms split_ws_nonempty by blast
  then have "cand_inv (add_words lower st (split_ws (the last_word)))"
    using st by (rule add_words_inv [rotated])
  with st have "cand_inv (if truthy last_word then add_words lower st (split_ws (the last_word))
     else st)"
    by simp
  moreover have "build_icon_candidates lower env desktop_file exe_name last_word =
     snd (if truthy last_word then add_words lower st (split_ws (the last_word)) else st)"
    by (simp only: build_icon_candidates_def Let_def st_def)
  ultimately show ?thesis
    by (simp only: cand_inv_def) simp
qed


lemma ascii_lower_nonempty: "s \<noteq> [] \<longrightarrow> ascii_lower s \<noteq> []"
  by (simp add: ascii_lower_def)

lemma build_icon_candidates_example:
  "build_icon_candidates ascii_lower env_apps
     (Some (str ''/usr/share/applications/org.example.App.desktop''))
     (Some (str ''example'')) (Some (str ''Example'')) =
   [str ''org.example.App'', str ''example'', str ''Example'', str ''app'',
    str ''org.example.app'']"
  by (simp add: build_icon_candidates_def base_candidates_def read_icon_from_desktop_def
      index1_def Let_def env_simps eval_simps)

theorem build_icon_candidates_distinct_witness:
  "build_icon_candidates ascii_lower env_apps
     (Some (str ''/usr/share/applications/org.example.App.desktop''))
     (Some (str ''example'')) (Some (str ''Example'')) =
   [str ''org.example.App'', str ''example'', str ''Example'', str ''app'',
    str ''org.example.app''] \<and>
   distinct (build_icon_candidates ascii_lower env_apps
     (Some (str ''/usr/share/applications/org.example.App.desktop''))
     (Some (str ''example'')) (Some (str ''Example''))) \<and>
   [] \<notin> set (build_icon_candidates ascii_lower env_apps
     (Some (str ''/usr/share/applications/org.example.App.desktop''))
     (Some (str ''example'')) (Some (str ''Example'')))"
  using build_icon_candidates_distinct [of ascii_lower env_apps
      "Some (str ''/usr/share/applications/org.example.App.desktop'')"
      "Some (str ''example'')" "Some (str ''Example'')"]
    ascii_lower_nonempty build_icon_candidates_example
  by blast

section \<open>Order of the candidates\<close>

lemma dedup_append: "dedup st (xs @ ys) = dedup (dedup st xs) ys"
  by (induction st xs rule: dedup.induct) simp_all

lemma dedup_extends: "\<exists>more. snd (dedup (seen, all_cands) cs) = all_cands @ more"
proof (induction "(seen, all_cands)" cs arbitrary: seen all_cands rule: dedup.induct)
  case (1 seen all_cands)
  then show ?case by simp
next
  case (2 seen all_cands c cs)
  show ?case
  proof (cases "c \<noteq> [] \<and> c \<notin> seen")
    case True
    with 2(1) obtain more where
      "snd (dedup (insert c seen, all_cands @ [c]) cs) = (all_cands @ [c]) @ more"
      by blast
    with True show ?thesis by simp
  next
    case False
    with 2(2) show ?thesis by auto
  qed
qed

lemma add_words_extends:
  "\<exists>more. snd (add_words lower (seen, all_cands) ws) = all_cands @ more"
proof (induction lower "(seen, all_cands)" ws arbitrary: seen all_cands rule: add_words.induct)
  case (1 lower seen all_cands)
  then show ?case by simp
next
  case (2 lower seen all_cands w ws)
  show ?case
  proof (cases "lower w \<notin> seen")
    case True
    with 2(1) [OF refl] obtain more where
      "snd (add_words lower (insert (lower w) seen, all_cands @ [lower w]) ws) =
         (all_cands @ [lower w]) @ more"
      by blast
    with True show ?thesis by (simp add: Let_def)
  next
    case False
    with 2(2) [OF refl] show ?thesis by (simp add: Let_def)
  qed
qed

lemma dedup_subset: "set (snd (dedup (seen, all_cands) cs)) \<subseteq> set all_cands \<union> set cs"
proof (induction "(seen, all_cands)" cs arbitrary: seen all_cands rule: dedup.induct)
  case (1 seen all_cands)
  then show ?case by simp
next
  case (2 seen all_cands c cs)
  show ?case
  proof (cases "c \<noteq> [] \<and> c \<notin> seen")
    case True
    with 2(1) have "set (snd (dedup (insert c seen, all_cands @ [c]) cs)) \<subseteq>
        set (all_cands @ [c]) \<union> set cs"
      by blast
    with True show ?thesis by auto
  next
    case False
    with 2(2) show ?thesis by auto
  qed
qed

lemma comes_before_append:
  "x \<in> set a \<Longrightarrow> comes_before x y (a @ y # b)"
proof -
  assume "x \<in> set a"
  then obtain a1 a2 where a: "a = a1 @ x # a2" and "x \<notin> set a1"
    by (meson split_list_first)
  then have "dropWhile (\<lambda>z. z \<noteq> x) (a @ y # b) = x # a2 @ y # b"
    by (auto simp: dropWhile_append)
  then show ?thesis
    by (simp add: comes_before_def)
qed

lemma split_on_no_sep: "\<forall>p \<in> set (split_on c s). c \<notin> set p"
  by (induction s) (auto split: list.splits)

lemma split_on_nonempty: "split_on c s \<noteq> []"
  by (induction s) (auto split: list.splits)

lemma last_split_on_no_sep: "c \<notin> set (last (split_on c s))"
  using split_on_no_sep [of c s] split_on_nonempty [of c s] last_in_set by blast

lemma dedup_two:
  assumes inv: "cand_inv (seen, cs)" and "p \<noteq> []" and "l \<noteq> []" and "p \<noteq> l" and "l \<notin> seen"
  shows "\<exists>a b. snd (dedup (seen, cs) (p # l # rest)) = a @ l # b \<and> p \<in> set a"
proof -
  obtain seen' cs' where st: "dedup (seen, cs) [p] = (seen', cs')"
    by (cases "dedup (seen, cs) [p]")
  have inv': "cand_inv (seen', cs')"
    using dedup_inv [OF inv, of "[p]"] st by simp
  have p: "p \<in> set cs'"
    using st inv assms(2) by (auto simp: cand_inv_def split: if_splits)
  have "set cs' \<subseteq> set cs \<union> {p}"
    using dedup_subset [of seen cs "[p]"] st by simp
  with inv inv' assms(4,5) have l: "l \<notin> seen'"
    by (auto simp: cand_inv_def)
  have "dedup (seen, cs) (p # l # rest) = dedup (dedup (seen, cs) [p]) (l # rest)"
    using dedup_append [of "(seen, cs)" "[p]" "l # rest"] by simp
  also have "\<dots> = dedup (insert l seen', cs' @ [l]) rest"
    using st l assms(3) by simp
  finally have "dedup (seen, cs) (p # l # rest) = dedup (insert l seen', cs' @ [l]) rest" .
  moreover obtain more where "snd (dedup (insert l seen', cs' @ [l]) rest) = (cs' @ [l]) @ more"
    using dedup_extends by blast
  ultimately have "snd (dedup (seen, cs) (p # l # rest)) = cs' @ l # more"
    by simp
  with p show ?thesis by blast
qed

lemma base_candidates_nonempty:
  "x \<in> set (base_candidates icon_from_desktop exe_name last_word) \<Longrightarrow> x \<noteq> []"
  by (cases icon_from_desktop; cases exe_name; cases last_word)
     (auto simp: base_candidates_def split: if_splits)

text \<open>
  Claim C1, as amended. The specification has the lowercase form before the part after
  the final dot. The loop appends the part after the final dot first, then the lowercase
  form, then the lowercase form without spaces. So for a base entry \<open>s\<close> whose
  lowercase form contains a dot, has a non-empty part after its final dot, and is
  neither a base entry itself nor a variant of an earlier base entry, the part after
  the final dot comes before the lowercase form in the candidate list. For the
  descriptor icon \<open>org.example.App\<close> the list has \<open>app\<close> before
  \<open>org.example.app\<close>.
\<close>

theorem build_icon_candidates_variant_order:
  assumes base: "base_candidates (read_icon_from_desktop env desktop_file) exe_name last_word =
                   pre @ s # post"
      and dot: "46 \<in> set (lower s)"
      and tail: "last (split_on 46 (lower s)) \<noteq> []"
      and not_base: "lower s \<notin> set (pre @ s # post)"
      and not_earlier: "lower s \<notin> set (derive_extra lower [] pre)"
  shows "comes_before (last (split_on 46 (lower s))) (lower s)
           (build_icon_candidates lower env desktop_file exe_name last_word)"
proof -
  define p where "p = last (split_on 46 (lower s))"
  define l where "l = lower s"
  define u where "u = (pre @ s # post) @ derive_extra lower [] pre"
  define rest where "rest = remove_spaces l # derive_extra lower [] post"
  have s: "s \<noteq> []"
    using base base_candidates_nonempty
      [of s "read_icon_from_desktop env desktop_file" exe_name last_word] by simp
  have l: "l \<noteq> []"
    using dot by (auto simp: l_def)
  have pl: "p \<noteq> l"
    using dot last_split_on_no_sep [of 46 "lower s"] by (auto simp: p_def l_def)
  have "derive_extra lower [] (pre @ s # post) =
        derive_extra lower [] pre @ derive_extra lower [] (s # post)"
    by (rule derive_extra_append)
  also have "derive_extra lower [] (s # post) = [p, l, remove_spaces l] @ derive_extra lower [] post"
    using s dot by (simp only: derive_extra_Cons p_def l_def if_False if_True append_Cons append_Nil)
  finally have xs: "(pre @ s # post) @ derive_extra lower [] (pre @ s # post) = u @ p # l # rest"
    by (simp add: u_def rest_def)
  obtain seen cs where st: "dedup ({}, []) u = (seen, cs)"
    by (cases "dedup ({}, []) u")
  have inv: "cand_inv (seen, cs)"
    using dedup_inv [OF cand_inv_init, of u] st by simp
  have "set cs \<subseteq> set u"
    using dedup_subset [of "{}" "[]" u] st by simp
  moreover have "l \<notin> set u"
    using not_base not_earlier by (simp add: u_def l_def)
  ultimately have "l \<notin> seen"
    using inv by (auto simp: cand_inv_def)
  with inv obtain a b where ab: "snd (dedup (seen, cs) (p # l # rest)) = a @ l # b" "p \<in> set a"
    using dedup_two [of seen cs p l rest] tail l pl by (auto simp: p_def)
  define st1 where "st1 = dedup ({}, []) (u @ p # l # rest)"
  have st1: "snd st1 = a @ l # b"
    using ab(1) st by (simp add: st1_def dedup_append)
  have "\<exists>more. snd (if truthy last_word then add_words lower st1 (split_ws (the last_word))
                     else st1) = snd st1 @ more"
    using add_words_extends [of lower "fst st1" "snd st1" "split_ws (the last_word)"] by auto
  then obtain more where "snd (if truthy last_word
      then add_words lower st1 (split_ws (the last_word)) else st1) = a @ l # (b @ more)"
    using st1 by auto
  moreover have "build_icon_candidates lower env desktop_file exe_name last_word =
     snd (if truthy last_word then add_words lower st1 (split_ws (the last_word)) else st1)"
    by (simp only: build_icon_candidates_def Let_def st1_def base xs)
  ultimately have "build_icon_candidates lower env desktop_file exe_name last_word =
     a @ l # (b @ more)"
    by simp
  moreover have "comes_before p l (a @ l # (b @ more))"
    using ab(2) by (rule comes_before_append)
  ultimately show ?thesis
    by (simp only: p_def l_def)
qed

lemma read_icon_example:
  "read_icon_from_desktop env_apps (Some (str ''/usr/share/applications/org.example.App.desktop'')) =
     Some (str ''org.example.App'')"
  by (simp add: read_icon_from_desktop_def index1_def env_simps eval_simps)

theorem build_icon_candidates_variant_order_witness:
  "base_candidates
     (read_icon_from_desktop env_apps
        (Some (str ''/usr/share/applications/org.example.App.desktop'')))
     (Some (str ''example'')) (Some (str ''Example'')) =
     [] @ str ''org.example.App'' # [str ''example'', str ''Example''] \<and>
   ascii_lower (str ''org.example.App'') = str ''org.example.app'' \<and>
   last (split_on 46 (str ''org.example.app'')) = str ''app'' \<and>
   comes_before (str ''app'') (str ''org.example.app'')
     (build_icon_candidates ascii_lower env_apps
        (Some (str ''/usr/share/applications/org.example.App.desktop''))
        (Some (str ''example'')) (Some (str ''Example'')))"
proof -
  have base: "base_candidates
     (read_icon_from_desktop env_apps
        (Some (str ''/usr/share/applications/org.example.App.desktop'')))
     (Some (str ''example'')) (Some (str ''Example'')) =
     [] @ str ''org.example.App'' # [str ''example'', str ''Example'']"
    by (simp add: read_icon_example base_candidates_def) (simp add: str_def)
  have low: "ascii_lower (str ''org.example.App'') = str ''org.example.app''"
    by (simp add: eval_simps)
  have tail: "last (split_on 46 (str ''org.example.app'')) = str ''app''"
    by (simp add: eval_simps)
  have "comes_before (last (split_on 46 (ascii_lower (str ''org.example.App''))))
     (ascii_lower (str ''org.example.App''))
     (build_icon_candidates ascii_lower env_apps
        (Some (str ''/usr/share/applications/org.example.App.desktop''))
        (Some (str ''example'')) (Some (str ''Example'')))"
  proof (rule build_icon_candidates_variant_order [OF base])
    show "46 \<in> set (ascii_lower (str ''org.example.App''))"
      by (simp add: eval_simps)
    show "last (split_on 46 (ascii_lower (str ''org.example.App''))) \<noteq> []"
      by (simp add: low tail) (simp add: str_def)
    show "ascii_lower (str ''org.example.App'') \<notin>
        set ([] @ str ''org.example.App'' # [str ''example'', str ''Example''])"
      by (simp add: eval_simps)
    show "ascii_lower (str ''org.example.App'') \<notin> set (derive_extra ascii_lower [] [])"
      by simp
  qed
  with base low tail show ?thesis by simp
qed

text \<open>
  Claim C1 as stated fails: for the descriptor icon \<open>org.example.App\<close>, exec hint
  \<open>example\<close> and hint \<open>Example\<close>, \<open>org.example.app\<close> does not come before
  \<open>app\<close>; the list ends with \<open>app\<close>, \<open>org.example.app\<close>.
\<close>

theorem build_icon_candidates_post_dot_first:
  "build_icon_candidates ascii_lower env_apps
     (Some (str ''/usr/share/applications/org.example.App.desktop''))
     (Some (str ''example'')) (Some (str ''Example'')) =
   [str ''org.example.App'', str ''example'', str ''Example'', str ''app'',
    str ''org.example.app''] \<and>
   \<not> comes_before (str ''org.example.app'') (str ''app'')
     (build_icon_candidates ascii_lower env_apps
        (Some (str ''/usr/share/applications/org.example.App.desktop''))
        (Some (str ''example'')) (Some (str ''Example'')))"
  by (simp add: build_icon_candidates_example) (simp add: comes_before_def str_def)


section \<open>Whitespace tokens\<close>

lemma split_ws_spaces: "\<forall>c \<in> set s. isspace c \<Longrightarrow> split_ws s = []"
  by (subst split_ws_unfold) simp

lemma split_ws_Nil_iff: "split_ws s = [] \<longleftrightarrow> (\<forall>c \<in> set s. isspace c)"
  by (subst split_ws_unfold) simp

lemma split_ws_dropWhile: "split_ws (dropWhile isspace s) = split_ws s"
  by (subst split_ws_unfold, subst (2) split_ws_unfold) (simp only: dropWhile_idem)

lemma split_ws_space_Cons: "isspace c \<Longrightarrow> split_ws (c # s) = split_ws s"
  by (simp add: split_ws_Cons)

lemma split_ws_token:
  assumes "x \<noteq> []" and "\<forall>c \<in> set x. \<not> isspace c"
  shows "split_ws x = [x]"
proof -
  from assms have f1: "dropWhile isspace x = x"
    by (cases x) simp_all
  from assms(2) have f2: "takeWhile (\<lambda>c. \<not> isspace c) x = x"
    by simp
  from assms(2) have f3: "dropWhile (\<lambda>c. \<not> isspace c) x = []"
    by simp
  show ?thesis
    by (subst split_ws_unfold) (simp only: f1 f2 f3 split_ws_Nil assms(1) if_False)
qed

lemma split_ws_at_space:
  "isspace c \<Longrightarrow> split_ws (a @ c # b) = split_ws a @ split_ws b"
proof (induction a rule: split_ws.induct)
  case (1 a)
  define a' where "a' = dropWhile isspace a"
  show ?case
  proof (cases "a' = []")
    case True
    then have all: "\<forall>x \<in> set a. isspace x"
      by (simp add: a'_def)
    then have "dropWhile isspace (a @ c # b) = dropWhile isspace b"
      using 1(2) by (simp add: dropWhile_append)
    then have "split_ws (a @ c # b) = split_ws b"
      by (metis split_ws_dropWhile)
    with all show ?thesis
      by (simp add: split_ws_spaces)
  next
    case False
    define w where "w = takeWhile (\<lambda>c. \<not> isspace c) a'"
    define r where "r = dropWhile (\<lambda>c. \<not> isspace c) a'"
    from False have ex: "\<exists>x \<in> set a. \<not> isspace x"
      by (simp add: a'_def)
    then have d: "dropWhile isspace (a @ c # b) = a' @ c # b"
      by (auto simp: a'_def dropWhile_append)
    have t: "takeWhile (\<lambda>c. \<not> isspace c) (a' @ c # b) = w"
    proof (cases "\<forall>x \<in> set a'. \<not> isspace x")
      case True
      then have eq: "takeWhile (\<lambda>c. \<not> isspace c) a' = a'" by simp
      from True have "takeWhile (\<lambda>c. \<not> isspace c) (a' @ c # b) =
          a' @ takeWhile (\<lambda>c. \<not> isspace c) (c # b)"
        by (simp add: takeWhile_append)
      also have "\<dots> = a'"
        using 1(2) by simp
      finally show ?thesis
        by (simp only: w_def eq)
    next
      case False
      then show ?thesis by (auto simp: w_def takeWhile_append)
    qed
    have dr: "dropWhile (\<lambda>c. \<not> isspace c) (a' @ c # b) = r @ c # b"
    proof (cases "\<forall>x \<in> set a'. \<not> isspace x")
      case True
      then have eq: "dropWhile (\<lambda>c. \<not> isspace c) a' = []" by simp
      from True have "dropWhile (\<lambda>c. \<not> isspace c) (a' @ c # b) =
          dropWhile (\<lambda>c. \<not> isspace c) (c # b)"
        by (simp add: dropWhile_append)
      also have "\<dots> = c # b"
        using 1(2) by simp
      finally show ?thesis
        by (simp only: r_def eq append_Nil)
    next
      case False
      then show ?thesis by (auto simp: r_def dropWhile_append)
    qed
    have "split_ws (a @ c # b) = w # split_ws (r @ c # b)"
      by (subst split_ws_unfold) (simp add: d t dr)
    also have "split_ws (r @ c # b) = split_ws r @ split_ws b"
      using 1(1) [OF a'_def False] 1(2) by (simp add: r_def)
    finally have l: "split_ws (a @ c # b) = (w # split_ws r) @ split_ws b"
      by simp
    have "split_ws a = w # split_ws r"
      using False by (subst split_ws_unfold) (simp add: a'_def [symmetric] w_def r_def)
    with l show ?thesis by simp
  qed
qed

lemma split_ws_append_spaces:
  "\<forall>c \<in> set b. isspace c \<Longrightarrow> split_ws (a @ b) = split_ws a"
proof (cases b)
  case Nil
  then show ?thesis by simp
next
  case (Cons c b')
  assume "\<forall>c \<in> set b. isspace c"
  with Cons show ?thesis
    by (simp add: split_ws_at_space split_ws_spaces)
qed

lemma split_ws_strip: "split_ws (strip s) = split_ws s"
proof -
  define t where "t = dropWhile isspace s"
  have "rev t = takeWhile isspace (rev t) @ dropWhile isspace (rev t)"
    by simp
  then have "t = rev (dropWhile isspace (rev t)) @ rev (takeWhile isspace (rev t))"
    by (metis rev_append rev_rev_ident)
  moreover have "\<forall>c \<in> set (rev (takeWhile isspace (rev t))). isspace c"
    by (auto dest: set_takeWhileD)
  ultimately have "split_ws t = split_ws (rev (dropWhile isspace (rev t)))"
    by (metis split_ws_append_spaces)
  then show ?thesis
    by (simp add: strip_def t_def [symmetric]) (simp add: t_def split_ws_dropWhile)
qed

lemma strip_only_spaces:
  assumes "\<forall>c \<in> set (strip s). isspace c"
  shows "strip s = []"
proof (rule ccontr)
  assume ne: "strip s \<noteq> []"
  define t where "t = rev (dropWhile isspace s)"
  from ne have d: "dropWhile isspace t \<noteq> []"
    by (simp add: strip_def t_def)
  then have "\<not> isspace (hd (dropWhile isspace t))"
    by (rule hd_dropWhile)
  moreover from d have "hd (dropWhile isspace t) \<in> set (strip s)"
    by (simp add: strip_def t_def [symmetric])
  ultimately show False
    using assms by blast
qed

lemma concat_split_ws: "concat (split_ws s) = filter (\<lambda>c. \<not> isspace c) s"
proof (induction s rule: split_ws.induct)
  case (1 s)
  define s' where "s' = dropWhile isspace s"
  have fs: "filter (\<lambda>c. \<not> isspace c) s = filter (\<lambda>c. \<not> isspace c) s'"
  proof -
    have "s = takeWhile isspace s @ s'"
      by (simp add: s'_def)
    then have "filter (\<lambda>c. \<not> isspace c) s =
        filter (\<lambda>c. \<not> isspace c) (takeWhile isspace s) @ filter (\<lambda>c. \<not> isspace c) s'"
      by (metis filter_append)
    moreover have "filter (\<lambda>c. \<not> isspace c) (takeWhile isspace s) = []"
      by (auto simp: filter_empty_conv dest: set_takeWhileD)
    ultimately show ?thesis by simp
  qed
  show ?case
  proof (cases "s' = []")
    case True
    then have "split_ws s = []"
      by (simp add: split_ws_Nil_iff s'_def)
    with True fs show ?thesis by simp
  next
    case False
    define w where "w = takeWhile (\<lambda>c. \<not> isspace c) s'"
    define r where "r = dropWhile (\<lambda>c. \<not> isspace c) s'"
    have "split_ws s = w # split_ws r"
      using False by (subst split_ws_unfold) (simp only: s'_def [symmetric] if_False w_def r_def)
    moreover have "concat (split_ws r) = filter (\<lambda>c. \<not> isspace c) r"
      using 1 [OF s'_def False] by (simp add: r_def)
    moreover have "filter (\<lambda>c. \<not> isspace c) s' = w @ filter (\<lambda>c. \<not> isspace c) r"
    proof -
      have "s' = w @ r" by (simp add: w_def r_def)
      then have "filter (\<lambda>c. \<not> isspace c) s' =
          filter (\<lambda>c. \<not> isspace c) w @ filter (\<lambda>c. \<not> isspace c) r"
        by (metis filter_append)
      moreover have "filter (\<lambda>c. \<not> isspace c) w = w"
        by (auto simp: w_def filter_id_conv dest: set_takeWhileD)
      ultimately show ?thesis by simp
    qed
    ultimately show ?thesis
      using fs by simp
  qed
qed

lemma split_ws_tokens:
  assumes "w \<in> set (split_ws s)"
  shows "w \<noteq> [] \<and> (\<forall>c \<in> set w. \<not> isspace c)"
proof
  show "w \<noteq> []"
    using assms by (rule split_ws_nonempty)
  show "\<forall>c \<in> set w. \<not> isspace c"
  proof
    fix c
    assume "c \<in> set w"
    with assms have "c \<in> set (concat (split_ws s))"
      by auto
    then show "\<not> isspace c"
      by (simp add: concat_split_ws)
  qed
qed

lemma isspace_32 [simp]: "isspace 32"
  by (simp add: isspace_def)

lemma split_ws_join_sp:
  "\<forall>w \<in> set ws. w \<noteq> [] \<and> (\<forall>c \<in> set w. \<not> isspace c) \<Longrightarrow> split_ws (join_sp ws) = ws"
proof (induction ws rule: join_sp.induct)
  case 1
  then show ?case by (simp add: split_ws_Nil)
next
  case (2 w)
  then show ?case by (simp add: split_ws_token)
next
  case (3 w v ws)
  then show ?case
    by (simp add: split_ws_at_space split_ws_token)
qed

lemma split_ws_collapse: "split_ws (join_sp (split_ws s)) = split_ws s"
  by (rule split_ws_join_sp) (use split_ws_tokens in blast)

lemma filter_join_sp:
  "\<forall>w \<in> set ws. \<forall>c \<in> set w. \<not> isspace c \<Longrightarrow>
     filter (\<lambda>c. \<not> isspace c) (join_sp ws) = concat ws"
  by (induction ws rule: join_sp.induct) (simp_all add: filter_id_conv)

lemma filter_collapse:
  "filter (\<lambda>c. \<not> isspace c) (join_sp (split_ws s)) = filter (\<lambda>c. \<not> isspace c) s"
proof -
  have "\<forall>w \<in> set (split_ws s). \<forall>c \<in> set w. \<not> isspace c"
    using split_ws_tokens by blast
  then show ?thesis
    by (simp add: filter_join_sp concat_split_ws)
qed

lemma in_collapse_iff:
  assumes "\<not> isspace c"
  shows "c \<in> set (join_sp (split_ws s)) \<longleftrightarrow> c \<in> set s"
proof -
  have "c \<in> set (join_sp (split_ws s)) \<longleftrightarrow>
        c \<in> set (filter (\<lambda>c. \<not> isspace c) (join_sp (split_ws s)))"
    using assms by simp
  also have "\<dots> \<longleftrightarrow> c \<in> set (filter (\<lambda>c. \<not> isspace c) s)"
    by (simp only: filter_collapse)
  also have "\<dots> \<longleftrightarrow> c \<in> set s"
    using assms by simp
  finally show ?thesis .
qed

section \<open>The part after the last separator\<close>

lemma last_rsplit1: "last (rsplit1 c s) = rev (takeWhile (\<lambda>x. x \<noteq> c) (rev s))"
proof (cases "c \<in> set s")
  case True
  then show ?thesis by (simp add: rsplit1_def)
next
  case False
  then have eq: "takeWhile (\<lambda>x. x \<noteq> c) (rev s) = rev s"
    by auto
  from False have "last (rsplit1 c s) = s"
    by (simp add: rsplit1_def)
  then show ?thesis
    by (simp only: eq rev_rev_ident)
qed

lemma last_rsplit1_absent: "c \<notin> set s \<Longrightarrow> last (rsplit1 c s) = s"
  by (simp add: rsplit1_def)

lemma last_rsplit1_append:
  "last (rsplit1 c (a @ b)) =
     (if c \<in> set b then last (rsplit1 c b) else last (rsplit1 c a) @ b)"
proof (cases "c \<in> set b")
  case True
  then show ?thesis
    by (auto simp: last_rsplit1 takeWhile_append)
next
  case False
  then have all: "\<forall>x \<in> set (rev b). x \<noteq> c"
    by auto
  then have "takeWhile (\<lambda>x. x \<noteq> c) (rev b @ rev a) =
      rev b @ takeWhile (\<lambda>x. x \<noteq> c) (rev a)"
    by (simp add: takeWhile_append)
  with False show ?thesis
    by (simp add: last_rsplit1)
qed

lemma set_last_rsplit1: "set (last (rsplit1 c s)) \<subseteq> set s"
  by (auto simp: last_rsplit1 dest: set_takeWhileD)

lemma split_ws_token_then:
  assumes x: "\<forall>c \<in> set x. \<not> isspace c" and r: "r = [] \<or> isspace (hd r)"
  shows "split_ws (x @ r) = split_ws x @ split_ws r"
proof (cases r)
  case Nil
  then show ?thesis by (simp add: split_ws_Nil)
next
  case (Cons c r')
  with r have c: "isspace c" by simp
  then have "split_ws (x @ c # r') = split_ws x @ split_ws r'"
    by (rule split_ws_at_space)
  moreover have "split_ws (c # r') = split_ws r'"
    using c by (rule split_ws_space_Cons)
  ultimately show ?thesis
    using Cons by simp
qed

lemma join_sp_Cons:
  "join_sp (w # ws) = (if ws = [] then w else w @ 32 # join_sp ws)"
  by (cases ws) simp_all

lemma split_ws_after_last_collapse:
  assumes c: "\<not> isspace c"
  shows "split_ws (last (rsplit1 c (join_sp (split_ws s)))) = split_ws (last (rsplit1 c s))"
proof (induction s rule: split_ws.induct)
  case (1 s)
  show ?case
  proof (cases "c \<in> set s")
    case False
    then have "c \<notin> set (join_sp (split_ws s))"
      using c by (simp add: in_collapse_iff)
    with False show ?thesis
      by (simp add: last_rsplit1_absent split_ws_collapse)
  next
    case True
    define s' where "s' = dropWhile isspace s"
    define w where "w = takeWhile (\<lambda>c. \<not> isspace c) s'"
    define r where "r = dropWhile (\<lambda>c. \<not> isspace c) s'"
    define J where "J = join_sp (split_ws r)"
    have s: "s = takeWhile isspace s @ w @ r"
      by (simp add: s'_def w_def r_def)
    have sp: "c \<notin> set (takeWhile isspace s)"
      using c by (auto dest: set_takeWhileD)
    from True c have ne: "s' \<noteq> []"
      by (auto simp: s'_def)
    have sw: "split_ws s = w # split_ws r"
      using ne by (subst split_ws_unfold) (simp only: s'_def [symmetric] if_False w_def r_def)
    have wns: "\<forall>x \<in> set w. \<not> isspace x"
      by (auto simp: w_def dest: set_takeWhileD)
    have r: "r = [] \<or> isspace (hd r)"
      using hd_dropWhile [of "\<lambda>c. \<not> isspace c" s'] by (auto simp: r_def)
    have IH: "split_ws (last (rsplit1 c J)) = split_ws (last (rsplit1 c r))"
      using 1 [OF s'_def ne] by (simp add: J_def r_def)
    have cJ: "c \<in> set J \<longleftrightarrow> c \<in> set r"
      using c by (simp add: J_def in_collapse_iff)
    have sJ: "split_ws J = split_ws r"
      by (simp add: J_def split_ws_collapse)
    have join: "join_sp (split_ws s) = (if split_ws r = [] then w else w @ 32 # J)"
      by (simp only: sw join_sp_Cons J_def)
    have rhs: "last (rsplit1 c s) =
        (if c \<in> set r then last (rsplit1 c r) else last (rsplit1 c w) @ r)"
    proof -
      have "last (rsplit1 c s) = last (rsplit1 c (takeWhile isspace s @ (w @ r)))"
        using s by simp
      also have "\<dots> = last (rsplit1 c (w @ r))"
        using True s sp by (subst last_rsplit1_append) (metis Un_iff set_append)
      also have "\<dots> = (if c \<in> set r then last (rsplit1 c r) else last (rsplit1 c w) @ r)"
        by (rule last_rsplit1_append)
      finally show ?thesis .
    qed
    show ?thesis
    proof (cases "c \<in> set r")
      case in_r: True
      with cJ have inJ: "c \<in> set J" by simp
      then have "split_ws r \<noteq> []"
        by (auto simp: J_def)
      then have "join_sp (split_ws s) = (w @ [32]) @ J"
        using join by simp
      then have "last (rsplit1 c (join_sp (split_ws s))) = last (rsplit1 c J)"
        using inJ by (simp only: last_rsplit1_append if_True)
      with IH rhs in_r show ?thesis by simp
    next
      case not_r: False
      with cJ have notJ: "c \<notin> set J" by simp
      define x where "x = last (rsplit1 c w)"
      have xns: "\<forall>y \<in> set x. \<not> isspace y"
        using wns set_last_rsplit1 [of c w] by (auto simp: x_def)
      have right: "split_ws (last (rsplit1 c s)) = split_ws x @ split_ws r"
        using rhs not_r split_ws_token_then [OF xns r] by (simp add: x_def)
      have left: "split_ws (last (rsplit1 c (join_sp (split_ws s)))) = split_ws x @ split_ws r"
      proof (cases "split_ws r = []")
        case True
        with join have "join_sp (split_ws s) = w" by simp
        with True show ?thesis by (simp add: x_def)
      next
        case False
        with join have "join_sp (split_ws s) = w @ (32 # J)" by simp
        then have "last (rsplit1 c (join_sp (split_ws s))) = x @ 32 # J"
          using notJ c by (auto simp: last_rsplit1_append x_def)
        then show ?thesis
          by (simp add: split_ws_at_space sJ)
      qed
      from left right show ?thesis by simp
    qed
  qed
qed

section \<open>Normalizing a window title\<close>

lemma not_isspace_dashes [simp]: "\<not> isspace 8212" "\<not> isspace 8211" "\<not> isspace 45"
  by (simp_all add: isspace_def)

lemma segment_last_word:
  assumes "\<not> isspace sep"
  shows "(let segment = strip (last (rsplit1 sep (join_sp (split_ws title))));
              words = split_ws segment
          in if words \<noteq> [] then last words else segment) =
         last_token (last (rsplit1 sep title))"
proof -
  define segment where "segment = strip (last (rsplit1 sep (join_sp (split_ws title))))"
  have words: "split_ws segment = split_ws (last (rsplit1 sep title))"
    unfolding segment_def
    by (simp only: split_ws_strip split_ws_after_last_collapse [OF assms])
  show ?thesis
  proof (cases "split_ws segment = []")
    case True
    then have "\<forall>c \<in> set segment. isspace c"
      by (simp add: split_ws_Nil_iff)
    then have "segment = []"
      unfolding segment_def by (rule strip_only_spaces)
    with True words show ?thesis
      by (simp add: Let_def segment_def [symmetric] last_token_def)
  next
    case False
    then obtain w ws where "split_ws segment = w # ws"
      by (cases "split_ws segment") auto
    with words have w: "split_ws (last (rsplit1 sep title)) = w # ws"
      by simp
    have "last_token (last (rsplit1 sep title)) = last (w # ws)"
      by (simp add: last_token_def w)
    moreover have "(let segment = strip (last (rsplit1 sep (join_sp (split_ws title))));
              words = split_ws segment
          in if words \<noteq> [] then last words else segment) = last (w # ws)"
      using words w by (simp add: Let_def segment_def [symmetric])
    ultimately show ?thesis
      by simp
  qed
qed

lemma extract_name:
  "extract_last_word_after_dash (Some title) =
     after_dash (join_sp (split_ws title)) [8212, 8211, 45]"
proof -
  have "(if truthy (Some title) then the (Some title) else []) = title"
    by simp
  then show ?thesis
    by (simp only: extract_last_word_after_dash_def Let_def split_ws_strip)
qed

text \<open>
  Claim C4, as amended. The specification says that for every title with one of the
  separators the result is the last whitespace token after the final occurrence of the
  separator; when nothing but whitespace follows it there is no such token, and the
  result is the empty string. So: for every title, with the separators em dash, en dash,
  hyphen taken in that priority, \<open>extract_last_word_after_dash\<close> returns the last
  whitespace token of the part of the title after the final occurrence of the first
  separator the title contains, and the empty string when that part has no token; for a
  title with none of the three it returns the title with whitespace collapsed and
  trimmed. An absent title counts as the empty title.
\<close>

theorem extract_last_word_after_dash_cases:
  "(8212 \<in> set title \<longrightarrow>
      extract_last_word_after_dash (Some title) = last_token (last (rsplit1 8212 title))) \<and>
   (8212 \<notin> set title \<and> 8211 \<in> set title \<longrightarrow>
      extract_last_word_after_dash (Some title) = last_token (last (rsplit1 8211 title))) \<and>
   (8212 \<notin> set title \<and> 8211 \<notin> set title \<and> 45 \<in> set title \<longrightarrow>
      extract_last_word_after_dash (Some title) = last_token (last (rsplit1 45 title))) \<and>
   (8212 \<notin> set title \<and> 8211 \<notin> set title \<and> 45 \<notin> set title \<longrightarrow>
      extract_last_word_after_dash (Some title) = join_sp (split_ws title)) \<and>
   extract_last_word_after_dash None = extract_last_word_after_dash (Some [])"
proof -
  define name where "name = join_sp (split_ws title)"
  have mem: "8212 \<in> set name \<longleftrightarrow> 8212 \<in> set title"
    "8211 \<in> set name \<longleftrightarrow> 8211 \<in> set title"
    "45 \<in> set name \<longleftrightarrow> 45 \<in> set title"
    by (simp_all add: name_def in_collapse_iff)
  have seg: "(let segment = strip (last (rsplit1 sep name)); words = split_ws segment
              in if words \<noteq> [] then last words else segment) =
             last_token (last (rsplit1 sep title))" if "\<not> isspace sep" for sep
    unfolding name_def using that by (rule segment_last_word)
  have "after_dash name [8212, 8211, 45] =
     (if 8212 \<in> set title then last_token (last (rsplit1 8212 title))
      else if 8211 \<in> set title then last_token (last (rsplit1 8211 title))
      else if 45 \<in> set title then last_token (last (rsplit1 45 title))
      else name)"
    by (simp only: after_dash.simps mem seg not_isspace_dashes not_False_eq_True)
  then have "extract_last_word_after_dash (Some title) =
     (if 8212 \<in> set title then last_token (last (rsplit1 8212 title))
      else if 8211 \<in> set title then last_token (last (rsplit1 8211 title))
      else if 45 \<in> set title then last_token (last (rsplit1 45 title))
      else join_sp (split_ws title))"
    by (simp only: extract_name name_def)
  moreover have "extract_last_word_after_dash None = extract_last_word_after_dash (Some [])"
    by (simp add: extract_last_word_after_dash_def)
  ultimately show ?thesis
    by simp
qed

theorem extract_last_word_after_dash_cases_witness:
  "8212 \<notin> set (str ''report.txt - Text Editor'') \<and>
   8211 \<notin> set (str ''report.txt - Text Editor'') \<and>
   45 \<in> set (str ''report.txt - Text Editor'') \<and>
   last (rsplit1 45 (str ''report.txt - Text Editor'')) = str '' Text Editor'' \<and>
   last_token (str '' Text Editor'') = str ''Editor'' \<and>
   extract_last_word_after_dash (Some (str ''report.txt - Text Editor'')) = str ''Editor'' \<and>
   extract_last_word_after_dash (Some (str ''htop'')) = str ''htop''"
proof -
  have h: "8212 \<notin> set (str ''report.txt - Text Editor'')"
    "8211 \<notin> set (str ''report.txt - Text Editor'')"
    "45 \<in> set (str ''report.txt - Text Editor'')"
    by (simp_all add: str_def)
  have r: "last (rsplit1 45 (str ''report.txt - Text Editor'')) = str '' Text Editor''"
    by (simp add: eval_simps)
  have t: "last_token (str '' Text Editor'') = str ''Editor''"
    by (simp add: last_token_def eval_simps)
  have "extract_last_word_after_dash (Some (str ''report.txt - Text Editor'')) =
      last_token (last (rsplit1 45 (str ''report.txt - Text Editor'')))"
    using extract_last_word_after_dash_cases [of "str ''report.txt - Text Editor''"] h by blast
  then have e: "extract_last_word_after_dash (Some (str ''report.txt - Text Editor'')) =
      str ''Editor''"
    by (simp only: r t)
  have "8212 \<notin> set (str ''htop'') \<and> 8211 \<notin> set (str ''htop'') \<and> 45 \<notin> set (str ''htop'')"
    by (simp add: str_def)
  then have "extract_last_word_after_dash (Some (str ''htop'')) = join_sp (split_ws (str ''htop''))"
    using extract_last_word_after_dash_cases [of "str ''htop''"] by blast
  also have "\<dots> = str ''htop''"
    by (simp add: eval_simps)
  finally show ?thesis
    using h r t e by simp
qed

text \<open>
  Claim C4 as stated fails: the title \<open>a-\<close> contains a hyphen, nothing follows its
  final hyphen, and the result is the empty string, which is not a whitespace token of
  that part (it has none).
\<close>

theorem extract_last_word_after_dash_no_token:
  "45 \<in> set (str ''a-'') \<and>
   split_ws (last (rsplit1 45 (str ''a-''))) = [] \<and>
   extract_last_word_after_dash (Some (str ''a-'')) = [] \<and>
   extract_last_word_after_dash (Some (str ''a-'')) \<notin>
     set (split_ws (last (rsplit1 45 (str ''a-''))))"
  by (simp add: extract_last_word_after_dash_def eval_simps)


end
